theory Spec2Isabelle
  imports Complex_Main "HOL-Library.AList"
begin

section \<open>Value model\<close>

text \<open>
  The values the data layer handles are the JavaScript values that survive a JSON round
  trip, plus \<open>undefined\<close>. A map keeps its keys in insertion order, so it is an
  association list; the operations below read a key with \<open>map_of\<close> and write it with
  \<open>AList.update\<close>, which keeps the position of an existing key and appends a new one.
  A JavaScript object lists keys that look like array indices before its other keys; here
  such a key stays where it was inserted, so the order of such keys is outside the model.
  Numbers are the finite ones (a double is a rational); strings are lists of code units
  below 256. Properties inherited from the prototypes (methods such as \<open>toString\<close>,
  or \<open>constructor\<close>) are not values of this model: \<open>prop_get\<close> reads own
  properties only.
\<close>

datatype jsval =
    Undefined
  | Null
  | Bool bool
  | Num rat
  | Str string
  | Arr "jsval list"
  | Obj "(string \<times> jsval) list"

text \<open>A thrown value: the engine's own \<open>TypeError\<close>, or whatever a handler throws.\<close>

datatype thrown = TypeError | Thrown jsval

definition isObject :: "jsval \<Rightarrow> bool" where
  "isObject obj = (case obj of Obj _ \<Rightarrow> True | _ \<Rightarrow> False)"

definition isArray :: "jsval \<Rightarrow> bool" where
  "isArray obj = (case obj of Arr _ \<Rightarrow> True | _ \<Rightarrow> False)"

definition isString :: "jsval \<Rightarrow> bool" where
  "isString obj = (case obj of Str _ \<Rightarrow> True | _ \<Rightarrow> False)"

text \<open>\<open>typeof obj === 'number' && isFinite(obj) && Math.floor(obj) === obj\<close>\<close>

definition isInteger :: "jsval \<Rightarrow> bool" where
  "isInteger obj = (case obj of Num q \<Rightarrow> of_int (floor q) = q | _ \<Rightarrow> False)"

definition typeof :: "jsval \<Rightarrow> string" where
  "typeof v = (case v of
       Undefined \<Rightarrow> ''undefined''
     | Null \<Rightarrow> ''object''
     | Bool _ \<Rightarrow> ''boolean''
     | Num _ \<Rightarrow> ''number''
     | Str _ \<Rightarrow> ''string''
     | Arr _ \<Rightarrow> ''object''
     | Obj _ \<Rightarrow> ''object'')"

subsection \<open>Paths\<close>

text \<open>\<open>path.split('.')\<close>: never empty, the empty string gives one empty segment.\<close>

fun split_dot :: "string \<Rightarrow> string list" where
  "split_dot [] = [[]]"
| "split_dot (c # cs) =
     (if c = CHR ''.'' then [] # split_dot cs
      else (c # hd (split_dot cs)) # tl (split_dot cs))"

text \<open>\<open>segments.join('.')\<close>\<close>

fun join_dot :: "string list \<Rightarrow> string" where
  "join_dot [] = []"
| "join_dot [x] = x"
| "join_dot (x # y # ys) = x @ CHR ''.'' # join_dot (y # ys)"

subsection \<open>Property access\<close>

definition is_digit :: "char \<Rightarrow> bool" where
  "is_digit c = (48 \<le> (of_char c :: nat) \<and> (of_char c :: nat) \<le> 57)"

text \<open>A key is an array index when it is the canonical decimal text of a number.\<close>

definition array_index :: "string \<Rightarrow> nat option" where
  "array_index k =
     (if k \<noteq> [] \<and> list_all is_digit k \<and> (k = ''0'' \<or> hd k \<noteq> CHR ''0'')
      then Some (foldl (\<lambda>n c. 10 * n + ((of_char c :: nat) - 48)) 0 k)
      else None)"

text \<open>
  \<open>prev[cur]\<close>: an own property of a map, an element or the length of a list or a
  string, nothing on a boolean or a number, and a \<open>TypeError\<close> on \<open>null\<close> and
  \<open>undefined\<close>.
\<close>

definition prop_get :: "jsval \<Rightarrow> string \<Rightarrow> thrown + jsval" where
  "prop_get prev cur = (case prev of
       Undefined \<Rightarrow> Inl TypeError
     | Null \<Rightarrow> Inl TypeError
     | Bool _ \<Rightarrow> Inr Undefined
     | Num _ \<Rightarrow> Inr Undefined
     | Str s \<Rightarrow>
         (if cur = ''length'' then Inr (Num (of_nat (length s)))
          else (case array_index cur of
                  Some i \<Rightarrow> (if i < length s then Inr (Str [s ! i]) else Inr Undefined)
                | None \<Rightarrow> Inr Undefined))
     | Arr xs \<Rightarrow>
         (if cur = ''length'' then Inr (Num (of_nat (length xs)))
          else (case array_index cur of
                  Some i \<Rightarrow> (if i < length xs then Inr (xs ! i) else Inr Undefined)
                | None \<Rightarrow> Inr Undefined))
     | Obj kvs \<Rightarrow> (case map_of kvs cur of Some v \<Rightarrow> Inr v | None \<Rightarrow> Inr Undefined))"

text \<open>The callback of the \<open>reduce\<close> in \<open>getObjectAtPath\<close>, run over the segments.\<close>

fun get_reduce :: "jsval \<Rightarrow> string list \<Rightarrow> thrown + jsval" where
  "get_reduce prev [] = Inr prev"
| "get_reduce prev (cur # rest) =
     (if prev \<noteq> Undefined
      then (case prop_get prev cur of Inl e \<Rightarrow> Inl e | Inr v \<Rightarrow> get_reduce v rest)
      else get_reduce Undefined rest)"

text \<open>
  \<open>getObjectAtPath(path, obj)\<close>. The first line compares the string \<open>typeof obj\<close> with
  the value \<open>undefined\<close>; \<open>window_dd\<close> is the tree the default would take.
\<close>

definition getObjectAtPath :: "string \<Rightarrow> jsval \<Rightarrow> jsval \<Rightarrow> thrown + jsval" where
  "getObjectAtPath path obj window_dd =
     (let obj' = (if Str (typeof obj) \<noteq> Undefined then obj else window_dd)
      in if path = [] then Inr obj' else get_reduce obj' (split_dot path))"

subsection \<open>JSON round trip\<close>

text \<open>
  \<open>JSON.parse(JSON.stringify(obj))\<close>: a property whose value is \<open>undefined\<close> is
  dropped from a map, and \<open>undefined\<close> in a list becomes \<open>null\<close>.
\<close>

fun cloneObject :: "jsval \<Rightarrow> jsval" where
  "cloneObject (Arr xs) =
     Arr (map (\<lambda>x. case cloneObject x of Undefined \<Rightarrow> Null | v \<Rightarrow> v) xs)"
| "cloneObject (Obj kvs) =
     Obj (filter (\<lambda>kv. snd kv \<noteq> Undefined) (map (\<lambda>kv. (fst kv, cloneObject (snd kv))) kvs))"
| "cloneObject v = v"

text \<open>
  \<open>JSON.stringify(a) === JSON.stringify(b)\<close>: two texts are the same exactly when
  they parse to the same value, so the comparison is made on the round-tripped values.
\<close>

definition json_text_eq :: "jsval \<Rightarrow> jsval \<Rightarrow> bool" where
  "json_text_eq a b = (cloneObject a = cloneObject b)"

subsection \<open>Emptiness\<close>

definition is_space :: "char \<Rightarrow> bool" where
  "is_space c = ((of_char c :: nat) \<in> {9, 10, 11, 12, 13, 32, 160})"

definition trim :: "string \<Rightarrow> string" where
  "trim s = rev (dropWhile is_space (rev (dropWhile is_space s)))"

text \<open>The public \<open>empty(path)\<close>, reading the tree \<open>window_dd\<close>.\<close>

definition empty :: "string \<Rightarrow> jsval \<Rightarrow> thrown + bool" where
  "empty path window_dd =
     (case getObjectAtPath path window_dd window_dd of
        Inl e \<Rightarrow> Inl e
      | Inr obj \<Rightarrow>
          Inr (if obj = Null \<or> obj = Undefined then True
               else if isObject obj then json_text_eq obj (Obj [])
               else if isArray obj then (case obj of Arr xs \<Rightarrow> length xs = 0 | _ \<Rightarrow> False)
               else if isString obj then (case obj of Str s \<Rightarrow> trim s = [] | _ \<Rightarrow> False)
               else \<not> isInteger obj))"


section \<open>Path resolver\<close>

text \<open>
  \<open>mergeObjects(destination, source)\<close> on the properties of two maps: it walks the
  properties of \<open>source\<close> in order and returns the properties of the mutated
  destination.
\<close>

fun mergeObjects :: "(string \<times> jsval) list \<Rightarrow> (string \<times> jsval) list \<Rightarrow> (string \<times> jsval) list" where
  "mergeObjects destination [] = destination"
| "mergeObjects destination ((property, v) # source) =
     (case v of
        Obj inner \<Rightarrow>
          mergeObjects
            (AList.update property
               (Obj (mergeObjects
                      (case map_of destination property of Some (Obj d) \<Rightarrow> d | _ \<Rightarrow> [])
                      inner))
               destination)
            source
      | _ \<Rightarrow> mergeObjects (AList.update property (cloneObject v) destination) source)"

text \<open>
  The callback of the \<open>reduce\<close> in \<open>setObjectAtPath\<close>: \<open>prev\<close> is the map of the
  current node, and the result is that map after the write below it.
\<close>

fun set_reduce :: "(string \<times> jsval) list \<Rightarrow> string list \<Rightarrow> jsval \<Rightarrow> (string \<times> jsval) list" where
  "set_reduce prev [] val = prev"
| "set_reduce prev [cur] val =
     (case (map_of prev cur, val) of
        (Some (Obj old), Obj new) \<Rightarrow> AList.update cur (Obj (mergeObjects old new)) prev
      | _ \<Rightarrow> AList.update cur val prev)"
| "set_reduce prev (cur # rest) val =
     (case map_of prev cur of
        Some (Obj inner) \<Rightarrow> AList.update cur (Obj (set_reduce inner rest val)) prev
      | _ \<Rightarrow> AList.update cur (Obj (set_reduce [] rest val)) prev)"

definition setObjectAtPath :: "string \<Rightarrow> jsval \<Rightarrow> (string \<times> jsval) list \<Rightarrow> (string \<times> jsval) list" where
  "setObjectAtPath path val window_dd = set_reduce window_dd (split_dot path) (cloneObject val)"

text \<open>\<open>delete parentObject[propertyToDelete]\<close>, with the parent found along the path.\<close>

fun delete_path :: "jsval \<Rightarrow> string list \<Rightarrow> jsval" where
  "delete_path v [] = v"
| "delete_path (Obj kvs) [k] = Obj (AList.delete k kvs)"
| "delete_path (Arr xs) [k] =
     (case array_index k of
        Some i \<Rightarrow> (if i < length xs then Arr (xs[i := Undefined]) else Arr xs)
      | None \<Rightarrow> Arr xs)"
| "delete_path (Obj kvs) (k # ks) =
     (case map_of kvs k of
        Some c \<Rightarrow> Obj (AList.update k (delete_path c ks) kvs)
      | None \<Rightarrow> Obj kvs)"
| "delete_path (Arr xs) (k # ks) =
     (case array_index k of
        Some i \<Rightarrow> (if i < length xs then Arr (xs[i := delete_path (xs ! i) ks]) else Arr xs)
      | None \<Rightarrow> Arr xs)"
| "delete_path v (k # ks) = v"

section \<open>Diff engine\<close>

text \<open>
  The one-directional walk \<open>_getDifferences(obj1, obj2, differences, path)\<close> over the
  properties of the map \<open>obj2\<close>. The pushes onto the shared \<open>differences\<close> array are
  returned in the order they happen.
\<close>

fun getDifferences_walk :: "jsval \<Rightarrow> (string \<times> jsval) list \<Rightarrow> string list \<Rightarrow> string list" where
  "getDifferences_walk obj1 [] path = []"
| "getDifferences_walk obj1 ((prop, v) # rest) path =
     (case v of
        Obj inner \<Rightarrow>
          (let obj1Prop =
                 (case obj1 of
                    Obj kvs1 \<Rightarrow> (case map_of kvs1 prop of Some x \<Rightarrow> x | None \<Rightarrow> Undefined)
                  | _ \<Rightarrow> Undefined)
           in (if obj1Prop = Undefined then [join_dot (path @ [prop])] else [])
              @ getDifferences_walk obj1Prop inner (path @ [prop]))
      | _ \<Rightarrow>
          (if \<not> isObject obj1
              \<or> \<not> json_text_eq
                     (case obj1 of
                        Obj kvs1 \<Rightarrow> (case map_of kvs1 prop of Some x \<Rightarrow> x | None \<Rightarrow> Undefined)
                      | _ \<Rightarrow> Undefined)
                     v
           then [join_dot (path @ [prop])] else []))
     @ getDifferences_walk obj1 rest path"

text \<open>The de-duplicating loop of \<open>getDifferences\<close>, over \<open>all\<close> from its last entry.\<close>

fun dedup_loop :: "string list \<Rightarrow> string list \<Rightarrow> string list" where
  "dedup_loop [] result = result"
| "dedup_loop (difference # more) result =
     (if difference \<in> set result then dedup_loop more result
      else dedup_loop more (result @ [difference]))"

definition getDifferences :: "(string \<times> jsval) list \<Rightarrow> (string \<times> jsval) list \<Rightarrow> string list" where
  "getDifferences obj1 obj2 =
     (let dif1 = getDifferences_walk (Obj obj1) obj2 [];
          dif2 = getDifferences_walk (Obj obj2) obj1 [];
          all = dif1 @ dif2
      in dedup_loop (rev all) [])"

section \<open>Listener registry\<close>

text \<open>
  A handler is an opaque callable, known by its identity: a function of the page, or the
  writer closure \<open>persist\<close> creates for a path.
\<close>

datatype handler = UserHandler nat | PersistenceListener string

text \<open>
  A listener record \<open>{handler, id, dependsOn}\<close>; \<open>once\<close> says whether the record has
  the own property \<open>once\<close>. \<open>rid\<close> stands for the identity of the record object.
\<close>

record listener =
  handler :: handler
  lid :: "string option"
  dependsOn :: "string list option"
  once :: bool
  rid :: nat

type_synonym registry = "(string \<times> listener list) list"

definition lookup_entry :: "registry \<Rightarrow> string \<Rightarrow> (string \<times> listener list) list" where
  "lookup_entry listenersToInspect p =
     (case map_of listenersToInspect p of Some hs \<Rightarrow> [(p, hs)] | None \<Rightarrow> [])"

text \<open>The callback of the \<open>reduce\<close> in \<open>getListeners\<close>; \<open>prev\<close> holds the segments seen.\<close>

fun getListeners_reduce ::
  "registry \<Rightarrow> string list \<Rightarrow> string list \<Rightarrow> (string \<times> listener list) list
     \<Rightarrow> (string \<times> listener list) list" where
  "getListeners_reduce L [] prev listeners = listeners"
| "getListeners_reduce L [cur] prev listeners =
     (listeners @ lookup_entry L (join_dot (prev @ [''*'']))) @ lookup_entry L (join_dot (prev @ [cur]))"
| "getListeners_reduce L (cur # rest) prev listeners =
     getListeners_reduce L rest (prev @ [cur])
       (listeners @ lookup_entry L (join_dot (prev @ [cur, ''**''])))"

definition getListeners :: "string \<Rightarrow> registry \<Rightarrow> (string \<times> listener list) list" where
  "getListeners path listenersToInspect =
     rev (getListeners_reduce listenersToInspect (split_dot path) []
            (lookup_entry listenersToInspect ''**''))"

text \<open>\<open>invokePath.replace(/\.?\*\*?$/, "")\<close>: the longest wildcard suffix is removed.\<close>

definition strip_wildcard :: "string \<Rightarrow> string" where
  "strip_wildcard p =
     (let r = rev p in
      if take 3 r = ''**.'' then rev (drop 3 r)
      else if take 2 r = ''**'' then rev (drop 2 r)
      else if take 2 r = ''*.'' then rev (drop 2 r)
      else if take 1 r = ''*'' then rev (drop 1 r)
      else p)"


section \<open>Engine state\<close>

text \<open>
  An item of the external store is a string. It is kept as what its text denotes: the
  JSON text of a value (the text \<open>undefined\<close> when the value is \<open>undefined\<close>), or the
  decimal text of an integer.
\<close>

datatype item = JsonText jsval | NumberText int

text \<open>
  What one call of a handler of the page does: it returns a value or throws one. It may
  depend on the calls made so far. A handler of the page does not call back into the
  engine here.
\<close>

datatype outcome = Returns jsval | Throws jsval

type_synonym call = "nat \<times> handler \<times> jsval"

type_synonym behaviour = "call list \<Rightarrow> nat \<Rightarrow> jsval \<Rightarrow> outcome"

datatype regkind = EventListeners | PropertyListeners | PersistenceListeners

text \<open>
  The variables of the closure: the tree \<open>window._dd\<close>, \<open>_prev_dd\<close>, the three
  registries, \<open>_pathsToPersist\<close>, \<open>_d.events\<close> and the store. \<open>clock\<close> is what
  \<open>new Date().getTime()\<close> reads, \<open>storage_ok\<close> what \<open>storageAvailable()\<close> answers,
  \<open>calls\<close> the handler calls made so far (record, handler, argument), \<open>errors\<close> what
  \<open>handleError\<close> has reported, and \<open>next_rid\<close> the next record identity.
\<close>

record ddm =
  dd :: "(string \<times> jsval) list"
  prev_dd :: "(string \<times> jsval) list"
  eventListeners :: registry
  pathsToPersist :: "(string \<times> int) list"
  propertyListeners :: registry
  persistenceListeners :: registry
  events :: "(string \<times> jsval) list list"
  storage :: "(string \<times> item) list"
  storage_ok :: bool
  clock :: int
  calls :: "call list"
  errors :: "(string \<times> thrown) list"
  next_rid :: nat

definition get_registry :: "regkind \<Rightarrow> ddm \<Rightarrow> registry" where
  "get_registry k s = (case k of
       EventListeners \<Rightarrow> eventListeners s
     | PropertyListeners \<Rightarrow> propertyListeners s
     | PersistenceListeners \<Rightarrow> persistenceListeners s)"

definition set_registry :: "regkind \<Rightarrow> registry \<Rightarrow> ddm \<Rightarrow> ddm" where
  "set_registry k r s = (case k of
       EventListeners \<Rightarrow> s\<lparr>eventListeners := r\<rparr>
     | PropertyListeners \<Rightarrow> s\<lparr>propertyListeners := r\<rparr>
     | PersistenceListeners \<Rightarrow> s\<lparr>persistenceListeners := r\<rparr>)"

definition cloneDDtoPreviousDD :: "ddm \<Rightarrow> ddm" where
  "cloneDDtoPreviousDD s =
     s\<lparr>prev_dd := (case cloneObject (Obj (dd s)) of Obj kvs \<Rightarrow> kvs | _ \<Rightarrow> [])\<rparr>"

text \<open>
  \<open>handleError(error, name, args, id)\<close> reads \<open>error.message\<close>, which throws a
  \<open>TypeError\<close> when the thrown value is \<open>null\<close> or \<open>undefined\<close>; otherwise the report
  goes to \<open>window.ddmErrorHandler\<close>, taken to return normally.
\<close>

definition handleError :: "thrown \<Rightarrow> string \<Rightarrow> ddm \<Rightarrow> ddm \<times> thrown option" where
  "handleError error name s =
     (if error = Thrown Undefined \<or> error = Thrown Null then (s, Some TypeError)
      else (s\<lparr>errors := errors s @ [(name, error)]\<rparr>, None))"

section \<open>Persistence synchronizer\<close>

definition storagePrefix :: string where
  "storagePrefix = ''dd_p_''"

definition storageExpirationPrefix :: string where
  "storageExpirationPrefix = ''dd_p_exp_''"

definition ttl_or_default :: "jsval \<Rightarrow> int" where
  "ttl_or_default ttl = (if isInteger ttl then (case ttl of Num q \<Rightarrow> floor q | _ \<Rightarrow> 30) else 30)"

text \<open>
  \<open>_persist(key, value, ttl)\<close>, with \<open>ttl\<close> already an integer. \<open>setItem\<close> keeps the
  place of an existing key. The expiry is an unbounded integer: times beyond the range of
  a \<open>Date\<close> (8.64e15 ms), where the source computes \<open>NaN\<close>, are outside the model.
\<close>

definition persist_store :: "string \<Rightarrow> jsval \<Rightarrow> int \<Rightarrow> ddm \<Rightarrow> ddm" where
  "persist_store key val ttl s =
     (if storage_ok s then
        (let now = clock s;
             storageKey = storagePrefix @ key;
             storageValue = JsonText (cloneObject val);
             expiresKey = storageExpirationPrefix @ key;
             expiresValue = now + ttl * 60000
         in if now < expiresValue
            then s\<lparr>storage := AList.update expiresKey (NumberText expiresValue)
                                 (AList.update storageKey storageValue (storage s))\<rparr>
            else s\<lparr>storage := AList.delete expiresKey (AList.delete storageKey (storage s))\<rparr>)
      else s)"

definition unpersist_store :: "string \<Rightarrow> ddm \<Rightarrow> ddm" where
  "unpersist_store key s = persist_store key Null 0 s"

section \<open>Dispatcher\<close>

text \<open>
  One call of a handler. A handler of the page answers by its behaviour; the writer
  closure of \<open>persist\<close> runs \<open>_persist(path, data, _pathsToPersist[path])\<close> and returns
  \<open>undefined\<close>. The call is recorded under the identity \<open>r\<close> of the record.
\<close>

definition invoke :: "behaviour \<Rightarrow> nat \<Rightarrow> handler \<Rightarrow> jsval \<Rightarrow> ddm \<Rightarrow> ddm \<times> outcome" where
  "invoke beh r h arg s =
     (case h of
        UserHandler n \<Rightarrow> (s\<lparr>calls := calls s @ [(r, h, arg)]\<rparr>, beh (calls s) n arg)
      | PersistenceListener path \<Rightarrow>
          (persist_store path arg
             (case map_of (pathsToPersist s) path of Some t \<Rightarrow> t | None \<Rightarrow> 30)
             (s\<lparr>calls := calls s @ [(r, h, arg)]\<rparr>),
           Returns Undefined))"

definition mark_once :: "regkind \<Rightarrow> string \<Rightarrow> nat \<Rightarrow> ddm \<Rightarrow> ddm" where
  "mark_once k pattern i s =
     (case map_of (get_registry k s) pattern of
        Some hs \<Rightarrow>
          (if i < length hs
           then set_registry k
                  (AList.update pattern (hs[i := (hs ! i)\<lparr>once := True\<rparr>]) (get_registry k s)) s
           else s)
      | None \<Rightarrow> s)"

text \<open>
  The guarded call that every dispatch site makes on the record at place \<open>i\<close> of a
  pattern:
  \<^verbatim>\<open>try { if(!rec.hasOwnProperty("once") && rec.handler(arg) === true) rec.once = true; }
catch(e) { handleError(e, name, ...); }\<close>
  The argument is computed only when the record is not marked, and computing it may throw.
\<close>

definition fire ::
  "behaviour \<Rightarrow> regkind \<Rightarrow> string \<Rightarrow> nat \<Rightarrow> (thrown + jsval) \<Rightarrow> string \<Rightarrow> ddm \<Rightarrow> ddm \<times> thrown option" where
  "fire beh k pattern i arg name s =
     (case map_of (get_registry k s) pattern of
        None \<Rightarrow> (s, None)
      | Some hs \<Rightarrow>
          (if i < length hs then
             (let rec = hs ! i in
              if once rec then (s, None)
              else (case arg of
                      Inl e \<Rightarrow> handleError e name s
                    | Inr a \<Rightarrow>
                        (case invoke beh (rid rec) (handler rec) a s of
                           (s1, Returns v) \<Rightarrow>
                             (if v = Bool True then (mark_once k pattern i s1, None) else (s1, None))
                         | (s1, Throws e) \<Rightarrow> handleError (Thrown e) name s1)))
           else (s, None)))"

text \<open>
  The loop over \<open>h\<close> in \<open>invokeChangeListenersForListenerSet\<close>, from index \<open>h\<close> on
  for \<open>n\<close> more records; it returns the state, the handlers pushed onto
  \<open>invokedFunctions\<close>, and the exception that left the loop, if one did.
\<close>

fun change_handlers_loop ::
  "behaviour \<Rightarrow> regkind \<Rightarrow> string \<Rightarrow> nat \<Rightarrow> nat \<Rightarrow> ddm \<Rightarrow> handler list
     \<Rightarrow> ddm \<times> handler list \<times> thrown option" where
  "change_handlers_loop beh k invokePath h 0 s invokedFunctions = (s, invokedFunctions, None)"
| "change_handlers_loop beh k invokePath h (Suc n) s invokedFunctions =
     (case fire beh k invokePath h
             (getObjectAtPath (strip_wildcard invokePath) (Obj (dd s)) (Obj (dd s)))
             ''listener-changehandler'' s of
        (s1, Some e) \<Rightarrow> (s1, invokedFunctions, Some e)
      | (s1, None) \<Rightarrow>
          change_handlers_loop beh k invokePath (Suc h) n s1
            (invokedFunctions
               @ (case map_of (get_registry k s1) invokePath of
                    Some hs \<Rightarrow> (if h < length hs then [handler (hs ! h)] else [])
                  | None \<Rightarrow> [])))"

text \<open>The loop over \<open>l\<close>: the patterns one changed path matches.\<close>

fun change_listeners_loop ::
  "behaviour \<Rightarrow> regkind \<Rightarrow> string list \<Rightarrow> ddm \<Rightarrow> string list \<Rightarrow> handler list
     \<Rightarrow> ddm \<times> string list \<times> handler list \<times> thrown option" where
  "change_listeners_loop beh k [] s invokedListeners invokedFunctions =
     (s, invokedListeners, invokedFunctions, None)"
| "change_listeners_loop beh k (invokePath # rest) s invokedListeners invokedFunctions =
     (if invokePath \<notin> set invokedListeners then
        (case change_handlers_loop beh k invokePath 0
                (case map_of (get_registry k s) invokePath of Some hs \<Rightarrow> length hs | None \<Rightarrow> 0)
                s invokedFunctions of
           (s1, fs, Some e) \<Rightarrow> (s1, invokedListeners, fs, Some e)
         | (s1, fs, None) \<Rightarrow> change_listeners_loop beh k rest s1 (invokedListeners @ [invokePath]) fs)
      else change_listeners_loop beh k rest s invokedListeners invokedFunctions)"

text \<open>The loop over \<open>d\<close>: the changed paths.\<close>

fun change_differences_loop ::
  "behaviour \<Rightarrow> regkind \<Rightarrow> string list \<Rightarrow> ddm \<Rightarrow> string list \<Rightarrow> handler list
     \<Rightarrow> ddm \<times> string list \<times> handler list \<times> thrown option" where
  "change_differences_loop beh k [] s invokedListeners invokedFunctions =
     (s, invokedListeners, invokedFunctions, None)"
| "change_differences_loop beh k (difference # rest) s invokedListeners invokedFunctions =
     (case change_listeners_loop beh k (map fst (getListeners difference (get_registry k s)))
             s invokedListeners invokedFunctions of
        (s1, ls, fs, Some e) \<Rightarrow> (s1, ls, fs, Some e)
      | (s1, ls, fs, None) \<Rightarrow> change_differences_loop beh k rest s1 ls fs)"

definition invokeChangeListenersForListenerSet ::
  "behaviour \<Rightarrow> regkind \<Rightarrow> ddm \<Rightarrow> ddm \<times> handler list \<times> thrown option" where
  "invokeChangeListenersForListenerSet beh listenerSet s =
     (let differences = rev (getDifferences (prev_dd s) (dd s))
      in case change_differences_loop beh listenerSet differences s [] [] of
           (s1, ls, fs, e) \<Rightarrow> (s1, fs, e))"

definition invokeChangeListeners :: "behaviour \<Rightarrow> ddm \<Rightarrow> ddm \<times> handler list \<times> thrown option" where
  "invokeChangeListeners beh s =
     (case invokeChangeListenersForListenerSet beh PersistenceListeners s of
        (s1, invokedPersistenceListeners, Some e) \<Rightarrow> (s1, [], Some e)
      | (s1, invokedPersistenceListeners, None) \<Rightarrow>
          (case invokeChangeListenersForListenerSet beh PropertyListeners s1 of
             (s2, invokedChangeListeners, Some e) \<Rightarrow> (s2, [], Some e)
           | (s2, invokedChangeListeners, None) \<Rightarrow>
               (s2, invokedPersistenceListeners @ invokedChangeListeners, None)))"


text \<open>
  The test \<open>l[i] === handler\<close> in \<open>registerListener\<close> compares an element of the
  array, which is a record object built by \<open>registerListener\<close> itself, with the callable
  passed in: the two are never the same object.
\<close>

definition record_is_handler :: "listener \<Rightarrow> handler \<Rightarrow> bool" where
  "record_is_handler r h = False"

text \<open>
  The fourth argument of \<open>registerListener\<close> is nothing, a string (then it is the id) or
  the array of names the listener depends on.
\<close>

datatype dep_arg = NoArg | IdArg string | NamesArg "string list"

definition registerListener ::
  "string \<Rightarrow> handler \<Rightarrow> regkind \<Rightarrow> dep_arg \<Rightarrow> string option \<Rightarrow> ddm \<Rightarrow> ddm \<times> bool" where
  "registerListener path h k dependsOn_arg id_arg s =
     (let id' = (case dependsOn_arg of IdArg i \<Rightarrow> Some i | _ \<Rightarrow> id_arg);
          dependsOn' = (case dependsOn_arg of NamesArg ns \<Rightarrow> Some ns | _ \<Rightarrow> None);
          l = (case map_of (get_registry k s) path of Some hs \<Rightarrow> hs | None \<Rightarrow> [])
      in if list_ex (\<lambda>r. record_is_handler r h) (rev l) then (s, False)
         else (set_registry k
                 (AList.update path
                    (l @ [\<lparr>handler = h, lid = id', dependsOn = dependsOn', once = False,
                           rid = next_rid s\<rparr>])
                    (get_registry k s))
                 (s\<lparr>next_rid := Suc (next_rid s)\<rparr>),
               True))"

section \<open>Event trigger and replay\<close>

definition event_name :: "(string \<times> jsval) list \<Rightarrow> string" where
  "event_name e = (case map_of e ''name'' of Some (Str n) \<Rightarrow> n | _ \<Rightarrow> [])"

definition isTriggered :: "string \<Rightarrow> ddm \<Rightarrow> bool" where
  "isTriggered name s = list_ex (\<lambda>e. map_of e ''name'' = Some (Str name)) (rev (events s))"

text \<open>The loop over \<open>h\<close> in \<open>trigger\<close>, from index \<open>h\<close> on for \<open>n\<close> more records.\<close>

fun trigger_handlers_loop ::
  "behaviour \<Rightarrow> string \<Rightarrow> jsval \<Rightarrow> handler list \<Rightarrow> string \<Rightarrow> nat \<Rightarrow> nat \<Rightarrow> ddm
     \<Rightarrow> ddm \<times> thrown option" where
  "trigger_handlers_loop beh eventName event invokedHandlers pattern h 0 s = (s, None)"
| "trigger_handlers_loop beh eventName event invokedHandlers pattern h (Suc n) s =
     (case map_of (eventListeners s) pattern of
        None \<Rightarrow> (s, None)
      | Some hs \<Rightarrow>
          (if h < length hs then
             (let handlerObject = hs ! h in
              case (case dependsOn handlerObject of
                      Some deps \<Rightarrow>
                        (let numTriggered =
                               length (filter (\<lambda>d. d = eventName \<or> isTriggered d s) (rev deps))
                         in if numTriggered = length deps
                               \<and> handler handlerObject \<notin> set invokedHandlers
                            then fire beh EventListeners pattern h (Inr event) ''listener-handler'' s
                            else (s, None))
                    | None \<Rightarrow>
                        (if handler handlerObject \<notin> set invokedHandlers
                         then fire beh EventListeners pattern h (Inr event) ''listener-handler'' s
                         else (s, None))) of
                (s1, Some e) \<Rightarrow> (s1, Some e)
              | (s1, None) \<Rightarrow>
                  trigger_handlers_loop beh eventName event invokedHandlers pattern (Suc h) n s1)
           else (s, None)))"

fun trigger_listeners_loop ::
  "behaviour \<Rightarrow> string \<Rightarrow> jsval \<Rightarrow> handler list \<Rightarrow> string list \<Rightarrow> ddm \<Rightarrow> ddm \<times> thrown option" where
  "trigger_listeners_loop beh eventName event invokedHandlers [] s = (s, None)"
| "trigger_listeners_loop beh eventName event invokedHandlers (pattern # rest) s =
     (case trigger_handlers_loop beh eventName event invokedHandlers pattern 0
             (case map_of (eventListeners s) pattern of Some hs \<Rightarrow> length hs | None \<Rightarrow> 0) s of
        (s1, Some e) \<Rightarrow> (s1, Some e)
      | (s1, None) \<Rightarrow> trigger_listeners_loop beh eventName event invokedHandlers rest s1)"

text \<open>
  \<open>trigger(eventName, payload)\<close>. The result carries an exception only when the
  \<open>handleError\<close> of the outer \<open>catch\<close> throws itself.
\<close>

definition trigger :: "behaviour \<Rightarrow> string \<Rightarrow> jsval \<Rightarrow> ddm \<Rightarrow> ddm \<times> thrown option" where
  "trigger beh eventName payload s =
     (let event0 = (case payload of Obj kvs \<Rightarrow> kvs | _ \<Rightarrow> []);
          event1 = AList.update ''name'' (Str eventName) event0;
          event = AList.update ''timestamp'' (Num (of_int (clock s))) event1
      in case (case map_of event ''dd'' of
                 Some (Obj patch) \<Rightarrow>
                   invokeChangeListeners beh
                     ((cloneDDtoPreviousDD s)
                        \<lparr>dd := mergeObjects (dd s)
                                 (case cloneObject (Obj patch) of Obj kvs \<Rightarrow> kvs | _ \<Rightarrow> [])\<rparr>)
               | _ \<Rightarrow> (s, [], None)) of
           (s1, invokedHandlers, Some e) \<Rightarrow> handleError e ''trigger'' s1
         | (s1, invokedHandlers, None) \<Rightarrow>
             (case trigger_listeners_loop beh eventName (Obj event) invokedHandlers
                     (map fst (getListeners eventName (eventListeners s1))) s1 of
                (s2, Some e) \<Rightarrow> handleError e ''trigger'' s2
              | (s2, None) \<Rightarrow> (s2\<lparr>events := events s2 @ [event]\<rparr>, None)))"

text \<open>The replay loops of \<open>listen\<close>; both inner loops count down.\<close>

fun replay_handlers_loop ::
  "behaviour \<Rightarrow> handler \<Rightarrow> jsval \<Rightarrow> string list \<Rightarrow> string \<Rightarrow> nat \<Rightarrow> ddm \<Rightarrow> ddm \<times> thrown option" where
  "replay_handlers_loop beh h0 event triggeredEvents pattern 0 s = (s, None)"
| "replay_handlers_loop beh h0 event triggeredEvents pattern (Suc h) s =
     (case map_of (eventListeners s) pattern of
        None \<Rightarrow> (s, None)
      | Some hs \<Rightarrow>
          (if h < length hs then
             (let handlerObject = hs ! h in
              case (case dependsOn handlerObject of
                      Some deps \<Rightarrow>
                        (let numTriggered =
                               length (filter (\<lambda>d. d \<in> set triggeredEvents) (rev deps))
                         in if numTriggered = length deps \<and> h0 = handler handlerObject
                            then fire beh EventListeners pattern h (Inr event) ''listener-handler'' s
                            else (s, None))
                    | None \<Rightarrow>
                        (if h0 = handler handlerObject
                         then fire beh EventListeners pattern h (Inr event) ''listener-handler'' s
                         else (s, None))) of
                (s1, Some e) \<Rightarrow> (s1, Some e)
              | (s1, None) \<Rightarrow> replay_handlers_loop beh h0 event triggeredEvents pattern h s1)
           else (s, None)))"

fun replay_listeners_loop ::
  "behaviour \<Rightarrow> handler \<Rightarrow> jsval \<Rightarrow> string list \<Rightarrow> string list \<Rightarrow> ddm \<Rightarrow> ddm \<times> thrown option" where
  "replay_listeners_loop beh h0 event triggeredEvents [] s = (s, None)"
| "replay_listeners_loop beh h0 event triggeredEvents (pattern # rest) s =
     (case replay_handlers_loop beh h0 event triggeredEvents pattern
             (case map_of (eventListeners s) pattern of Some hs \<Rightarrow> length hs | None \<Rightarrow> 0) s of
        (s1, Some e) \<Rightarrow> (s1, Some e)
      | (s1, None) \<Rightarrow> replay_listeners_loop beh h0 event triggeredEvents rest s1)"

fun replay_events_loop ::
  "behaviour \<Rightarrow> handler \<Rightarrow> (string \<times> jsval) list list \<Rightarrow> string list \<Rightarrow> ddm \<Rightarrow> ddm \<times> thrown option" where
  "replay_events_loop beh h0 [] triggeredEvents s = (s, None)"
| "replay_events_loop beh h0 (e # rest) triggeredEvents s =
     (let triggeredEvents1 = triggeredEvents @ [event_name e] in
      case replay_listeners_loop beh h0 (Obj e) triggeredEvents1
             (rev (map fst (getListeners (event_name e) (eventListeners s)))) s of
        (s1, Some ex) \<Rightarrow> (s1, Some ex)
      | (s1, None) \<Rightarrow> replay_events_loop beh h0 rest triggeredEvents1 s1)"

datatype name_arg = Single string | Multiple "string list"

text \<open>The registrations of the array form, from the last name to the first.\<close>

fun register_names :: "string list \<Rightarrow> string list \<Rightarrow> handler \<Rightarrow> string option \<Rightarrow> ddm \<Rightarrow> ddm" where
  "register_names [] name h id_arg s = s"
| "register_names (n # todo) name h id_arg s =
     register_names todo name h id_arg
       (fst (registerListener n h EventListeners (NamesArg name) id_arg s))"

text \<open>
  \<open>listen(name, invokeHandlerOnHistoricalEvents, handler, id)\<close> after its arguments
  are sorted out: \<open>historical\<close> is \<open>None\<close> when no boolean was passed.
\<close>

definition listen ::
  "behaviour \<Rightarrow> name_arg \<Rightarrow> bool option \<Rightarrow> handler \<Rightarrow> string option \<Rightarrow> ddm \<Rightarrow> ddm \<times> thrown option" where
  "listen beh name historical h id_arg s =
     (let s1 = (case name of
                  Multiple ns \<Rightarrow> register_names (rev ns) ns h id_arg s
                | Single n \<Rightarrow>
                    fst (registerListener n h EventListeners
                           (case id_arg of Some i \<Rightarrow> IdArg i | None \<Rightarrow> NoArg) None s))
      in if historical \<noteq> Some False
         then (case replay_events_loop beh h (events s1) [] s1 of
                 (s2, Some ex) \<Rightarrow> handleError ex ''listen'' s2
               | (s2, None) \<Rightarrow> (s2, None))
         else (s1, None))"

definition unlisten :: "string \<Rightarrow> handler \<Rightarrow> ddm \<Rightarrow> ddm" where
  "unlisten name h s =
     (case map_of (eventListeners s) name of
        Some l \<Rightarrow> s\<lparr>eventListeners :=
                     AList.update name (filter (\<lambda>r. handler r \<noteq> h) l) (eventListeners s)\<rparr>
      | None \<Rightarrow> s)"


section \<open>Public operations\<close>

definition has :: "string \<Rightarrow> ddm \<Rightarrow> thrown + bool" where
  "has path s =
     (case getObjectAtPath path (Obj (dd s)) (Obj (dd s)) of
        Inl e \<Rightarrow> Inl e
      | Inr v \<Rightarrow> Inr (typeof v \<noteq> ''undefined''))"

text \<open>
  \<open>persist(path, ttl)\<close>. The two reads of the current value call \<open>getObjectAtPath\<close>
  with the path alone, so its second argument is \<open>undefined\<close>.
\<close>

definition persist :: "string \<Rightarrow> jsval \<Rightarrow> ddm \<Rightarrow> ddm \<times> thrown option" where
  "persist path ttl_arg s =
     (let ttl = ttl_or_default ttl_arg;
          s1 = (if map_of (pathsToPersist s) path = None
                then fst (registerListener (path @ ''.**'') (PersistenceListener path)
                            PersistenceListeners NoArg None
                            (fst (registerListener path (PersistenceListener path)
                                    PersistenceListeners NoArg None s)))
                else s);
          s2 = s1\<lparr>pathsToPersist := AList.update path ttl (pathsToPersist s1)\<rparr>
      in case getObjectAtPath path Undefined (Obj (dd s2)) of
           Inl e \<Rightarrow> handleError e ''persist'' s2
         | Inr v \<Rightarrow>
             (if typeof v \<noteq> ''undefined'' then (persist_store path v ttl s2, None)
              else (s2, None)))"

definition unpersist :: "string \<Rightarrow> ddm \<Rightarrow> ddm" where
  "unpersist path s =
     unpersist_store path
       (s\<lparr>persistenceListeners :=
            AList.delete (path @ ''.**'') (AList.delete path (persistenceListeners s))\<rparr>)"

text \<open>
  \<open>set(path, value, persist, ttl)\<close>; its \<open>try\<close> is commented out in the source, so
  an exception leaves the operation.
\<close>

definition set_value ::
  "behaviour \<Rightarrow> string \<Rightarrow> jsval \<Rightarrow> bool \<Rightarrow> jsval \<Rightarrow> ddm \<Rightarrow> ddm \<times> thrown option" where
  "set_value beh path val persist_flag ttl s =
     (case (if persist_flag
            then persist path (Num (of_int (ttl_or_default ttl))) (cloneDDtoPreviousDD s)
            else (cloneDDtoPreviousDD s, None)) of
        (s1, Some e) \<Rightarrow> (s1, Some e)
      | (s1, None) \<Rightarrow>
          (case invokeChangeListeners beh (s1\<lparr>dd := setObjectAtPath path val (dd s1)\<rparr>) of
             (s2, fs, e) \<Rightarrow> (s2, e)))"

definition erase :: "behaviour \<Rightarrow> string \<Rightarrow> ddm \<Rightarrow> ddm \<times> thrown option" where
  "erase beh path s =
     (case has path s of
        Inl e \<Rightarrow> (s, Some e)
      | Inr False \<Rightarrow> (s, None)
      | Inr True \<Rightarrow>
          (let s1 = cloneDDtoPreviousDD s;
               split = split_dot path;
               s2 = s1\<lparr>dd := (case delete_path (Obj (dd s1)) split of Obj kvs \<Rightarrow> kvs | _ \<Rightarrow> dd s1)\<rparr>
           in case invokeChangeListeners beh s2 of
                (s3, fs, Some e) \<Rightarrow> handleError e ''delete'' s3
              | (s3, fs, None) \<Rightarrow> (s3, None)))"

definition push :: "behaviour \<Rightarrow> string \<Rightarrow> jsval \<Rightarrow> ddm \<Rightarrow> ddm \<times> thrown option" where
  "push beh path val s =
     (let s1 = cloneDDtoPreviousDD s in
      case getObjectAtPath path (Obj (dd s1)) (Obj (dd s1)) of
        Inl e \<Rightarrow> handleError e ''push'' s1
      | Inr found \<Rightarrow>
          (let a = cloneObject found;
               s2 = (case a of
                       Arr xs \<Rightarrow>
                         s1\<lparr>dd := setObjectAtPath path
                                     (Arr (xs @ (case val of Arr ys \<Rightarrow> ys | _ \<Rightarrow> [cloneObject val])))
                                     (dd s1)\<rparr>
                     | _ \<Rightarrow> s1\<lparr>dd := setObjectAtPath path (Arr [cloneObject val]) (dd s1)\<rparr>)
           in case invokeChangeListeners beh s2 of
                (s3, fs, Some e) \<Rightarrow> handleError e ''push'' s3
              | (s3, fs, None) \<Rightarrow> (s3, None)))"

text \<open>
  \<open>change(path, onlyInvokeOnChanges, handler, id)\<close> after its arguments are sorted
  out. The call at registration is made on the handler directly.
\<close>

definition change ::
  "behaviour \<Rightarrow> string \<Rightarrow> bool \<Rightarrow> handler \<Rightarrow> string option \<Rightarrow> ddm \<Rightarrow> ddm \<times> thrown option" where
  "change beh path onlyInvokeOnChanges h id_arg s =
     (case registerListener path h PropertyListeners
             (case id_arg of Some i \<Rightarrow> IdArg i | None \<Rightarrow> NoArg) None s of
        (s1, registered) \<Rightarrow>
          (if registered \<and> \<not> onlyInvokeOnChanges then
             (case getObjectAtPath (strip_wildcard path) (Obj (dd s1)) (Obj (dd s1)) of
                Inl e \<Rightarrow> handleError e ''change'' s1
              | Inr v \<Rightarrow>
                  (if typeof v \<noteq> ''undefined'' then
                     (case invoke beh (next_rid s) h v s1 of
                        (s2, Returns r) \<Rightarrow> (s2, None)
                      | (s2, Throws e) \<Rightarrow> handleError (Thrown e) ''change'' s2)
                   else (s1, None)))
           else (s1, None)))"

subsection \<open>Startup restore\<close>

text \<open>\<open>parseInt(text, 10)\<close> of an item; \<open>None\<close> is \<open>NaN\<close>.\<close>

definition parseInt :: "item \<Rightarrow> int option" where
  "parseInt it = (case it of
       NumberText n \<Rightarrow> Some n
     | JsonText (Num q) \<Rightarrow> Some (if q < 0 then ceiling q else floor q)
     | JsonText _ \<Rightarrow> None)"

text \<open>\<open>JSON.parse(text)\<close> of an item; \<open>None\<close> is a \<open>SyntaxError\<close>.\<close>

definition JSON_parse :: "item \<Rightarrow> jsval option" where
  "JSON_parse it = (case it of
       NumberText n \<Rightarrow> Some (Num (of_int n))
     | JsonText Undefined \<Rightarrow> None
     | JsonText v \<Rightarrow> Some v)"

text \<open>\<open>/dd_p_.*/.test(key)\<close>: the prefix occurs somewhere in the key.\<close>

fun contains_prefix :: "string \<Rightarrow> bool" where
  "contains_prefix [] = False"
| "contains_prefix (c # cs) = (take 5 (c # cs) = ''dd_p_'' \<or> contains_prefix cs)"

text \<open>
  The loop \<open>for (var key in storage)\<close> of \<open>restorePersistedDD\<close> over the keys present
  when it starts; a key removed in the meantime is not visited. An exception ends the
  loop, and the \<open>catch\<close> around it drops the exception.
\<close>

fun restore_loop :: "string list \<Rightarrow> int \<Rightarrow> ddm \<Rightarrow> ddm" where
  "restore_loop [] now s = s"
| "restore_loop (key # keys) now s =
     (case map_of (storage s) key of
        None \<Rightarrow> restore_loop keys now s
      | Some expiryItem \<Rightarrow>
          (case (if take (length storageExpirationPrefix) key = storageExpirationPrefix then
                   (let ddKey = drop (length storageExpirationPrefix) key in
                    case map_of (storage s) (storagePrefix @ ddKey) of
                      Some valueItem \<Rightarrow>
                        (if (case parseInt expiryItem of Some n \<Rightarrow> n > now | None \<Rightarrow> False) then
                           (case JSON_parse valueItem of
                              None \<Rightarrow> (s, True)
                            | Some v \<Rightarrow>
                                (let s1 = s\<lparr>dd := setObjectAtPath ddKey v (dd s)\<rparr> in
                                 if map_of (pathsToPersist s1) ddKey = None
                                 then (case persist ddKey Undefined s1 of
                                         (s2, Some e) \<Rightarrow> (s2, True)
                                       | (s2, None) \<Rightarrow> (s2, False))
                                 else (s1, False)))
                         else (s\<lparr>storage := AList.delete (storagePrefix @ ddKey)
                                               (AList.delete key (storage s))\<rparr>, False))
                    | None \<Rightarrow>
                        (s\<lparr>storage := AList.delete (storagePrefix @ ddKey)
                                         (AList.delete key (storage s))\<rparr>, False))
                 else (s, False)) of
             (s1, True) \<Rightarrow> s1
           | (s1, False) \<Rightarrow>
               restore_loop keys now
                 (if contains_prefix key \<and> map_of (storage s1) key = Some (JsonText Undefined)
                  then s1\<lparr>storage := AList.delete key (storage s1)\<rparr>
                  else s1)))"

definition restorePersistedDD :: "ddm \<Rightarrow> ddm" where
  "restorePersistedDD s =
     (if storage_ok s then restore_loop (map fst (storage s)) (clock s) s else s)"

text \<open>
  A page load: the closure's variables start empty, \<open>window._dd = {}\<close>, and
  \<open>restorePersistedDD()\<close> runs on the store the page finds.
\<close>

definition startup :: "(string \<times> item) list \<Rightarrow> bool \<Rightarrow> int \<Rightarrow> ddm" where
  "startup store ok now =
     restorePersistedDD
       \<lparr>dd = [], prev_dd = [], eventListeners = [], pathsToPersist = [],
        propertyListeners = [], persistenceListeners = [], events = [],
        storage = store, storage_ok = ok, clock = now, calls = [], errors = [],
        next_rid = 0\<rparr>"


section \<open>Notions of the specification\<close>

text \<open>
  A branch created from nothing: the map that holds, under the segments of a path, one
  value and nothing else.
\<close>

fun fresh_branch :: "string list \<Rightarrow> jsval \<Rightarrow> (string \<times> jsval) list" where
  "fresh_branch [] v = []"
| "fresh_branch [c] v = [(c, v)]"
| "fresh_branch (c # rest) v = [(c, Obj (fresh_branch rest v))]"

text \<open>
  The patterns \<open>q.**\<close> for the prefixes \<open>q\<close> of a path that are shorter than the
  path, below the segments \<open>prev\<close>.
\<close>

definition deep_patterns :: "string list \<Rightarrow> string list \<Rightarrow> string set" where
  "deep_patterns prev segs =
     (\<lambda>k. join_dot (prev @ take k segs @ [''**''])) ` {k. 0 < k \<and> k < length segs}"

text \<open>
  The registry after \<open>listen(["evtA","evtB"], h)\<close> on an empty one, and the event
  object that \<open>trigger(name)\<close> builds without a payload.
\<close>

definition gated_registry :: "handler \<Rightarrow> string option \<Rightarrow> nat \<Rightarrow> nat \<Rightarrow> registry" where
  "gated_registry h i r1 r2 =
     [(''evtB'', [\<lparr>handler = h, lid = i, dependsOn = Some [''evtA'', ''evtB''], once = False, rid = r1\<rparr>]),
      (''evtA'', [\<lparr>handler = h, lid = i, dependsOn = Some [''evtA'', ''evtB''], once = False, rid = r2\<rparr>])]"

definition plain_event :: "string \<Rightarrow> int \<Rightarrow> (string \<times> jsval) list" where
  "plain_event name t = [(''name'', Str name), (''timestamp'', Num (of_int t))]"

text \<open>
  Fire-once. \<open>records\<close> lists the records of a registry. A record identity \<open>r\<close> is
  \<open>marked\<close> when it has been handed out and every record that carries it has the
  property \<open>once\<close>. \<open>kept r s s'\<close> says that from \<open>s\<close> to \<open>s'\<close> the calls only
  grew, by calls made through other records than \<open>r\<close>, and that \<open>r\<close> is marked in
  \<open>s'\<close>. \<open>wf_rids\<close> says that the identities of the records are distinct and have all
  been handed out.
\<close>

definition records :: "regkind \<Rightarrow> ddm \<Rightarrow> listener list" where
  "records k s = concat (map snd (get_registry k s))"

definition marked :: "nat \<Rightarrow> ddm \<Rightarrow> bool" where
  "marked r s = (r < next_rid s \<and> (\<forall>k. \<forall>rec \<in> set (records k s). rid rec = r \<longrightarrow> once rec))"

definition kept :: "nat \<Rightarrow> ddm \<Rightarrow> ddm \<Rightarrow> bool" where
  "kept r s s' = ((\<exists>new. calls s' = calls s @ new \<and> r \<notin> fst ` set new) \<and> marked r s')"

definition all_records :: "ddm \<Rightarrow> listener list" where
  "all_records s =
     records EventListeners s @ records PropertyListeners s @ records PersistenceListeners s"

definition wf_rids :: "ddm \<Rightarrow> bool" where
  "wf_rids s = (distinct (map rid (all_records s)) \<and> list_all (\<lambda>rec. rid rec < next_rid s) (all_records s))"

text \<open>
  Snapshots. \<open>value_at\<close> reads a value through own properties of maps only. A value
  is \<open>clean\<close> when it is a value of the value model: no \<open>undefined\<close> inside, and the
  keys of every map distinct. \<open>differs_one_way\<close> is what one direction of the walk
  reports; \<open>node_absent\<close> and \<open>leaf_differs\<close> are the two kinds of difference the
  specification names.
\<close>

fun value_at :: "jsval \<Rightarrow> string list \<Rightarrow> jsval" where
  "value_at v [] = v"
| "value_at (Obj kvs) (k # ks) = (case map_of kvs k of Some v \<Rightarrow> value_at v ks | None \<Rightarrow> Undefined)"
| "value_at v (k # ks) = Undefined"

fun clean :: "jsval \<Rightarrow> bool" where
  "clean Undefined = False"
| "clean (Arr xs) = list_all clean xs"
| "clean (Obj kvs) = (distinct (map fst kvs) \<and> list_all (\<lambda>kv. clean (snd kv)) kvs)"
| "clean v = True"

definition differs_one_way :: "jsval \<Rightarrow> jsval \<Rightarrow> string list \<Rightarrow> bool" where
  "differs_one_way o1 o2 segs =
     (segs \<noteq> [] \<and> value_at o2 segs \<noteq> Undefined
      \<and> (if isObject (value_at o2 segs) then value_at o1 segs = Undefined
          else value_at o1 segs \<noteq> value_at o2 segs))"

definition is_leaf :: "jsval \<Rightarrow> bool" where
  "is_leaf v = (v \<noteq> Undefined \<and> \<not> isObject v)"

definition node_absent :: "jsval \<Rightarrow> jsval \<Rightarrow> string list \<Rightarrow> bool" where
  "node_absent present other segs =
     (isObject (value_at present segs) \<and> value_at other segs = Undefined)"

definition leaf_differs :: "jsval \<Rightarrow> jsval \<Rightarrow> string list \<Rightarrow> bool" where
  "leaf_differs a b segs =
     ((is_leaf (value_at a segs) \<or> is_leaf (value_at b segs)) \<and> value_at a segs \<noteq> value_at b segs)"

section \<open>Properties of the path resolver\<close>

lemma get_reduce_Undefined: "get_reduce Undefined segs = Inr Undefined"
  by (induction segs) auto

lemma getObjectAtPath_without_object: "getObjectAtPath path Undefined w = Inr Undefined"
  by (simp add: getObjectAtPath_def get_reduce_Undefined)

lemma trim_empty_iff: "trim s = [] \<longleftrightarrow> list_all is_space s"
proof (cases "dropWhile is_space s = []")
  case True
  have a: "trim s = []" unfolding trim_def True by simp
  have b: "list_all is_space s" using True by (simp add: list_all_iff)
  show ?thesis using a b by blast
next
  case False
  then have "\<not> is_space (hd (dropWhile is_space s))" by (rule hd_dropWhile)
  moreover have "hd (dropWhile is_space s) \<in> set (dropWhile is_space s)" using False by simp
  ultimately have "\<not> (\<forall>x\<in>set (dropWhile is_space s). is_space x)" by blast
  moreover have "\<not> list_all is_space s" using False by (simp add: list_all_iff)
  ultimately show ?thesis by (simp add: trim_def)
qed

lemma cloneObject_Undefined_iff: "cloneObject v = Undefined \<longleftrightarrow> v = Undefined"
  by (cases v) auto

lemma split_dot_nonempty: "split_dot s \<noteq> []"
  by (induction s) auto

lemma split_dot_no_dot: "seg \<in> set (split_dot s) \<Longrightarrow> CHR ''.'' \<notin> set seg"
proof (induction s arbitrary: seg)
  case Nil
  then show ?case by simp
next
  case (Cons c cs)
  obtain r rs where r: "split_dot cs = r # rs"
    using split_dot_nonempty [of cs] by (cases "split_dot cs") auto
  show ?case
  proof (cases "c = CHR ''.''")
    case True
    then show ?thesis using Cons by auto
  next
    case False
    then have "seg = c # r \<or> seg \<in> set rs" using Cons.prems r by simp
    moreover have "CHR ''.'' \<notin> set r" using Cons.IH [of r] r by simp
    moreover have "seg \<in> set rs \<Longrightarrow> CHR ''.'' \<notin> set seg" using Cons.IH [of seg] r by simp
    ultimately show ?thesis using False by auto
  qed
qed

lemma join_split: "join_dot (split_dot s) = s"
proof (induction s)
  case Nil
  then show ?case by simp
next
  case (Cons c cs)
  obtain r rs where r: "split_dot cs = r # rs"
    using split_dot_nonempty [of cs] by (cases "split_dot cs") auto
  show ?case using Cons r by (cases rs) auto
qed

lemma split_dot_single: "CHR ''.'' \<notin> set x \<Longrightarrow> split_dot x = [x]"
  by (induction x) auto

lemma split_dot_append: "CHR ''.'' \<notin> set x \<Longrightarrow> split_dot (x @ CHR ''.'' # t) = x # split_dot t"
  by (induction x) auto

lemma split_join: "segs \<noteq> [] \<Longrightarrow> \<forall>seg\<in>set segs. CHR ''.'' \<notin> set seg \<Longrightarrow> split_dot (join_dot segs) = segs"
  by (induction segs rule: join_dot.induct) (auto simp: split_dot_single split_dot_append)

lemma set_reduce_fresh: "segs \<noteq> [] \<Longrightarrow> set_reduce [] segs v = fresh_branch segs v"
  by (induction segs v rule: fresh_branch.induct) auto

lemma get_reduce_fresh:
  "k < length segs \<Longrightarrow>
   get_reduce (Obj (fresh_branch segs v)) (take k segs) = Inr (Obj (fresh_branch (drop k segs) v))"
proof (induction segs arbitrary: k)
  case Nil
  then show ?case by simp
next
  case (Cons c rest)
  show ?case
  proof (cases k)
    case 0
    then show ?thesis by simp
  next
    case (Suc j)
    then have j: "j < length rest" using Cons.prems by simp
    then obtain r rs where rest: "rest = r # rs" by (cases rest) auto
    have "get_reduce (Obj (fresh_branch (c # rest) v)) (take k (c # rest))
          = get_reduce (Obj (fresh_branch rest v)) (take j rest)"
      using Suc rest by (simp add: prop_get_def)
    then show ?thesis using Cons.IH [OF j] Suc by simp
  qed
qed

lemma set_reduce_prefix:
  "0 < k \<Longrightarrow> k < length segs \<Longrightarrow> get_reduce (Obj kvs) (take k segs) = Inr x \<Longrightarrow>
   \<not> isObject x \<Longrightarrow>
   get_reduce (Obj (set_reduce kvs segs v)) (take k segs) = Inr (Obj (fresh_branch (drop k segs) v))"
proof (induction segs arbitrary: k kvs)
  case Nil
  then show ?case by simp
next
  case (Cons c rest)
  obtain j where k: "k = Suc j" using Cons.prems(1) by (cases k) auto
  then have j: "j < length rest" using Cons.prems(2) by simp
  then obtain r rs where rest: "rest = r # rs" by (cases rest) auto
  show ?case
  proof (cases "\<exists>inner. map_of kvs c = Some (Obj inner)")
    case True
    then obtain inner where inner: "map_of kvs c = Some (Obj inner)" by blast
    have g: "get_reduce (Obj inner) (take j rest) = Inr x"
      using Cons.prems(3) k inner by (simp add: prop_get_def)
    have "0 < j"
    proof (rule ccontr)
      assume "\<not> 0 < j"
      then have "x = Obj inner" using g by simp
      then show False using Cons.prems(4) by (simp add: isObject_def)
    qed
    then have "get_reduce (Obj (set_reduce inner rest v)) (take j rest)
               = Inr (Obj (fresh_branch (drop j rest) v))"
      using Cons.IH [OF _ j g Cons.prems(4)] by simp
    then show ?thesis using k inner rest by (simp add: prop_get_def update_conv')
  next
    case False
    then have "set_reduce kvs (c # rest) v = AList.update c (Obj (set_reduce [] rest v)) kvs"
      using rest by (auto split: option.splits jsval.splits)
    then show ?thesis
      using k rest get_reduce_fresh [OF j, of v] set_reduce_fresh [of rest v]
      by (simp add: prop_get_def update_conv')
  qed
qed

text \<open>
  C10: when a strict prefix of the path \<open>p\<close> holds a value that is not a map,
  \<open>setObjectAtPath\<close> leaves at that prefix a map created from nothing that holds the
  rest of the path down to the stored value, and nothing of the previous value.
\<close>

theorem set_replaces_non_map_prefix:
  assumes "0 < k" and "k < length (split_dot p)"
    and "getObjectAtPath (join_dot (take k (split_dot p))) (Obj window_dd) (Obj window_dd) = Inr x"
    and "\<not> isObject x"
  shows "getObjectAtPath (join_dot (take k (split_dot p)))
           (Obj (setObjectAtPath p v window_dd)) (Obj (setObjectAtPath p v window_dd))
         = Inr (Obj (fresh_branch (drop k (split_dot p)) (cloneObject v)))"
proof -
  let ?pre = "take k (split_dot p)"
  have ne: "?pre \<noteq> []" using assms(1) split_dot_nonempty [of p] by (cases "split_dot p") auto
  have "\<forall>seg\<in>set ?pre. CHR ''.'' \<notin> set seg"
    using split_dot_no_dot [of _ p] by (auto dest: in_set_takeD)
  then have sj: "split_dot (join_dot ?pre) = ?pre" by (rule split_join [OF ne])
  have nonempty: "join_dot ?pre \<noteq> []"
  proof
    assume e: "join_dot ?pre = []"
    then have "x = Obj window_dd" using assms(3) by (simp add: getObjectAtPath_def typeof_def)
    then show False using assms(4) by (simp add: isObject_def)
  qed
  have "get_reduce (Obj window_dd) ?pre = Inr x"
    using assms(3) nonempty sj by (simp add: getObjectAtPath_def)
  then have "get_reduce (Obj (set_reduce window_dd (split_dot p) (cloneObject v))) ?pre
             = Inr (Obj (fresh_branch (drop k (split_dot p)) (cloneObject v)))"
    using set_reduce_prefix [OF assms(1) assms(2) _ assms(4)] by simp
  then show ?thesis using nonempty sj by (simp add: getObjectAtPath_def setObjectAtPath_def)
qed


theorem set_replaces_non_map_prefix_witness: "0 < (1::nat) \<and> 1 < length (split_dot ''a.b'')
   \<and> getObjectAtPath (join_dot (take 1 (split_dot ''a.b''))) (Obj [(''a'', Str ''x'')]) (Obj [(''a'', Str ''x'')]) = Inr (Str ''x'')
   \<and> \<not> isObject (Str ''x'')
   \<and> getObjectAtPath ''a'' (Obj (setObjectAtPath ''a.b'' (Num 1) [(''a'', Str ''x'')])) (Obj (setObjectAtPath ''a.b'' (Num 1) [(''a'', Str ''x'')])) = Inr (Obj [(''b'', Num 1)])"
proof -
  have h1: "0 < (1::nat)" by simp
  have h2: "1 < length (split_dot ''a.b'')" by code_simp
  have h3: "getObjectAtPath (join_dot (take 1 (split_dot ''a.b''))) (Obj [(''a'', Str ''x'')]) (Obj [(''a'', Str ''x'')]) = Inr (Str ''x'')" by code_simp
  have h4: "\<not> isObject (Str ''x'')" by code_simp
  have e1: "join_dot (take 1 (split_dot ''a.b'')) = ''a''" by code_simp
  have e2: "fresh_branch (drop 1 (split_dot ''a.b'')) (cloneObject (Num 1)) = [(''b'', Num 1)]" by code_simp
  show ?thesis using h1 h2 h3 h4 set_replaces_non_map_prefix [OF h1 h2 h3 h4, of "Num 1"] unfolding e1 e2 by simp
qed

lemma split_dot_dot: "split_dot (a @ CHR ''.'' # b) = split_dot a @ split_dot b"
proof (induction a)
  case Nil
  then show ?case by simp
next
  case (Cons c a)
  obtain r rs where r: "split_dot a = r # rs"
    using split_dot_nonempty [of a] by (cases "split_dot a") auto
  show ?case using Cons r by simp
qed

lemma join_dot_append:
  "xs \<noteq> [] \<Longrightarrow> ys \<noteq> [] \<Longrightarrow> join_dot (xs @ ys) = join_dot xs @ CHR ''.'' # join_dot ys"
proof (induction xs rule: join_dot.induct)
  case 1
  then show ?case by simp
next
  case (2 x)
  then show ?case by (cases ys) auto
next
  case (3 x y ys')
  then show ?case by simp
qed

subsection \<open>The emptiness predicate\<close>

text \<open>
  C9: \<open>empty\<close> should answer \<open>true\<close> exactly for an absent path, \<open>null\<close>, an empty
  map, an empty list and a blank string, and \<open>false\<close> for every stored number. On the
  code it answers \<open>true\<close> for the stored number \<open>1.5\<close> and for a stored boolean: its
  last line is \<open>return !_d.isInteger(obj)\<close>, while its doc comment lists neither among
  the empty values.
\<close>

theorem empty_counterexample:
  "empty ''a'' (Obj [(''a'', Num (3 / 2))]) = Inr True
   \<and> empty ''a'' (Obj [(''a'', Bool False)]) = Inr True"
  by code_simp

text \<open>
  What the code computes, for every value the lookup of the path returns: on the values
  the doc comment names it answers as documented, and it answers \<open>false\<close> for every
  integer, zero included; the lines for a boolean and for a number that is not an
  integer are the defect.
\<close>

lemma empty_computes:
  assumes "getObjectAtPath path window_dd window_dd = Inr obj"
  shows "empty path window_dd =
           Inr (case obj of
                  Undefined \<Rightarrow> True
                | Null \<Rightarrow> True
                | Bool b \<Rightarrow> True
                | Num q \<Rightarrow> q \<notin> \<int>
                | Str s \<Rightarrow> list_all is_space s
                | Arr xs \<Rightarrow> xs = []
                | Obj kvs \<Rightarrow> list_all (\<lambda>kv. snd kv = Undefined) kvs)"
proof (cases obj)
  case (Num q)
  have "(rat_of_int \<lfloor>q\<rfloor> = q) = (q \<in> \<int>)"
    by (metis Ints_of_int floor_of_int Ints_cases)
  then show ?thesis using assms Num
    by (simp add: empty_def isObject_def isArray_def isString_def isInteger_def)
next
  case (Obj kvs)
  have "(filter (\<lambda>kv. snd kv \<noteq> Undefined) (map (\<lambda>kv. (fst kv, cloneObject (snd kv))) kvs) = [])
        = list_all (\<lambda>kv. snd kv = Undefined) kvs"
    by (induction kvs) (auto simp: cloneObject_Undefined_iff)
  then show ?thesis using assms Obj
    by (simp add: empty_def isObject_def json_text_eq_def)
qed (use assms in \<open>simp_all add: empty_def isObject_def isArray_def isString_def isInteger_def
       trim_empty_iff\<close>)

lemma empty_computes_example:
  "getObjectAtPath ''a'' (Obj [(''a'', Num 0)]) (Obj [(''a'', Num 0)]) = Inr (Num 0)
   \<and> empty ''a'' (Obj [(''a'', Num 0)]) = Inr False"
proof -
  have h: "getObjectAtPath ''a'' (Obj [(''a'', Num 0)]) (Obj [(''a'', Num 0)]) = Inr (Num 0)"
    by code_simp
  show ?thesis using h empty_computes [OF h] by simp
qed

section \<open>Properties of the persistence synchronizer\<close>

text \<open>
  C4: \<open>persist\<close> should write the current value at once. On the code it does not: with
  \<open>"v"\<close> stored at \<open>k\<close> and the store available, \<open>persist("k", 60)\<close> leaves the store
  empty, since \<open>getObjectAtPath(path)\<close> is called without a tree and answers
  \<open>undefined\<close>.
\<close>

theorem persist_writes_nothing_at_once:
  "(let s = fst (set_value (\<lambda>tr n a. Returns Undefined) ''k'' (Str ''v'') False Undefined
                  (startup [] True 0))
    in has ''k'' s = Inr True \<and> storage_ok s
       \<and> storage (fst (persist ''k'' (Num 60) s)) = [])"
  by code_simp

text \<open>
  The writer itself works: with the value set after \<open>persist("k", 60)\<close> the change
  dispatch writes it, and a page load one minute later restores it and tracks \<open>k\<close>
  again. With a TTL of 0 nothing is ever stored, and nothing is restored.
\<close>

lemma persist_then_set_round_trip:
  "(let s = fst (set_value (\<lambda>tr n a. Returns Undefined) ''k'' (Str ''v'') False Undefined
                  (fst (persist ''k'' (Num 60) (startup [] True 0))));
        reloaded = startup (storage s) True (clock s + 60000)
    in storage s = [(''dd_p_k'', JsonText (Str ''v'')), (''dd_p_exp_k'', NumberText 3600000)]
       \<and> dd reloaded = [(''k'', Str ''v'')] \<and> map fst (pathsToPersist reloaded) = [''k''])"
  by code_simp

lemma persist_ttl_zero_stores_nothing:
  "(let s = fst (set_value (\<lambda>tr n a. Returns Undefined) ''k'' (Str ''v'') False Undefined
                  (fst (persist ''k'' (Num 0) (startup [] True 0))));
        reloaded = startup (storage s) True (clock s + 1)
    in storage s = [] \<and> dd reloaded = [])"
  by code_simp

text \<open>
  C7: the round trip of \<open>persist("k", 60)\<close> with a value present. On the code, after
  \<open>set("k", "v")\<close> and \<open>persist("k", 60)\<close> a page load one minute later finds an
  empty store and restores nothing.
\<close>

theorem persist_round_trip_lost:
  "(let s = fst (persist ''k'' (Num 60)
                  (fst (set_value (\<lambda>tr n a. Returns Undefined) ''k'' (Str ''v'') False Undefined
                         (startup [] True 0))));
        reloaded = startup (storage s) True (clock s + 60000)
    in dd s = [(''k'', Str ''v'')] \<and> dd reloaded = [] \<and> pathsToPersist reloaded = [])"
  by code_simp

section \<open>Properties of the listener registry\<close>

lemma fst_lookup_entry: "fst ` set (lookup_entry L p) = (if p \<in> fst ` set L then {p} else {})"
proof (cases "map_of L p")
  case None
  then have "p \<notin> fst ` set L" by (simp add: map_of_eq_None_iff)
  then show ?thesis using None by (simp add: lookup_entry_def)
next
  case (Some hs)
  then have "p \<in> fst ` set L" by (metis map_of_eq_None_iff option.distinct(1))
  then show ?thesis using Some by (simp add: lookup_entry_def)
qed

lemma deep_patterns_step:
  "deep_patterns prev (cur # r # rs) = insert (join_dot (prev @ [cur, ''**''])) (deep_patterns (prev @ [cur]) (r # rs))"
proof -
  have "{k. 0 < k \<and> k < length (cur # r # rs)} = insert 1 (Suc ` {k. 0 < k \<and> k < length (r # rs)})"
  proof (rule set_eqI)
    fix k
    show "k \<in> {k. 0 < k \<and> k < length (cur # r # rs)} \<longleftrightarrow> k \<in> insert 1 (Suc ` {k. 0 < k \<and> k < length (r # rs)})"
      by (cases k) (auto simp: image_iff)
  qed
  then show ?thesis by (simp add: deep_patterns_def image_image)
qed


lemma getListeners_reduce_keys:
  assumes "\<And>p. fst ` set (lookup_entry L p) = (if p \<in> D then {p} else {})"
  shows "fst ` set (getListeners_reduce L segs prev acc) =
     fst ` set acc \<union>
     {pat \<in> D. (segs \<noteq> [] \<and> (pat = join_dot (prev @ butlast segs @ [''*'']) \<or> pat = join_dot (prev @ segs)))
         \<or> pat \<in> deep_patterns prev segs}"
  using assms
proof (induction L segs prev acc rule: getListeners_reduce.induct)
  case (1 L prev listeners)
  then show ?case by (simp add: deep_patterns_def)
next
  case (2 L cur prev listeners)
  have "deep_patterns prev [cur] = {}" by (auto simp: deep_patterns_def)
  then show ?case by (auto simp: "2.prems" image_Un)
next
  case (3 L cur v va prev listeners)
  have "fst ` set (getListeners_reduce L (cur # v # va) prev listeners)
        = fst ` set (listeners @ lookup_entry L (join_dot (prev @ [cur, ''**'']))) \<union>
     {pat \<in> D. (pat = join_dot ((prev @ [cur]) @ butlast (v # va) @ [''*'']) \<or> pat = join_dot ((prev @ [cur]) @ v # va))
         \<or> pat \<in> deep_patterns (prev @ [cur]) (v # va)}"
    using "3.IH" [OF "3.prems"] by simp
  also have "\<dots> = fst ` set listeners \<union>
     {pat \<in> D. (pat = join_dot (prev @ butlast (cur # v # va) @ [''*'']) \<or> pat = join_dot (prev @ cur # v # va))
         \<or> pat \<in> deep_patterns prev (cur # v # va)}"
    unfolding deep_patterns_step by (auto simp: "3.prems" image_Un)
  finally show ?case by simp
qed

lemma getListeners_patterns:
  "fst ` set (getListeners path L) =
     {pat \<in> fst ` set L.
        pat = ''**'' \<or> pat = path \<or> pat = join_dot (butlast (split_dot path) @ [''*''])
        \<or> pat \<in> deep_patterns [] (split_dot path)}"
proof -
  define D where "D = fst ` set L"
  have le: "\<And>p. fst ` set (lookup_entry L p) = (if p \<in> D then {p} else {})"
    by (simp add: fst_lookup_entry D_def)
  have "fst ` set (getListeners path L) =
     {pat \<in> D.
        pat = ''**'' \<or> pat = path \<or> pat = join_dot (butlast (split_dot path) @ [''*''])
        \<or> pat \<in> deep_patterns [] (split_dot path)}"
    unfolding getListeners_def set_rev getListeners_reduce_keys [of L D, OF le]
    by (auto simp: le split_dot_nonempty join_split)
  then show ?thesis by (simp add: D_def)
qed


lemma star_pattern_fires:
  "(p @ ''.*'' \<in> fst ` set (getListeners path L)) =
     (p @ ''.*'' \<in> fst ` set L \<and> (\<exists>c. CHR ''.'' \<notin> set c \<and> path = p @ ''.'' @ c))"
proof -
  let ?segs = "split_dot path"
  have a: "p @ ''.*'' \<noteq> ''**''" by (cases p rule: rev_cases) auto
  have b: "p @ ''.*'' \<notin> deep_patterns [] ?segs"
  proof
    assume "p @ ''.*'' \<in> deep_patterns [] ?segs"
    then obtain k where k: "0 < k" "k < length ?segs" "p @ ''.*'' = join_dot (take k ?segs @ [''**''])"
      by (auto simp: deep_patterns_def)
    have "take k ?segs \<noteq> []" using k by auto
    then have "p @ ''.*'' = join_dot (take k ?segs) @ ''.**''"
      using k(3) by (simp add: join_dot_append)
    then have "rev (p @ ''.*'') = rev (join_dot (take k ?segs) @ ''.**'')" by simp
    then show False by simp
  qed
  have c: "(p @ ''.*'' = path \<or> p @ ''.*'' = join_dot (butlast ?segs @ [''*'']))
           = (\<exists>c. CHR ''.'' \<notin> set c \<and> path = p @ ''.'' @ c)"
  proof
    assume "p @ ''.*'' = path \<or> p @ ''.*'' = join_dot (butlast ?segs @ [''*''])"
    then show "\<exists>c. CHR ''.'' \<notin> set c \<and> path = p @ ''.'' @ c"
    proof
      assume "p @ ''.*'' = path"
      then have "CHR ''.'' \<notin> set ''*'' \<and> path = p @ ''.'' @ ''*''" by simp
      then show ?thesis by blast
    next
      assume e: "p @ ''.*'' = join_dot (butlast ?segs @ [''*''])"
      have ne: "butlast ?segs \<noteq> []"
      proof
        assume "butlast ?segs = []"
        then have "p @ ''.*'' = ''*''" using e by simp
        then show False by simp
      qed
      then have "p @ ''.*'' = join_dot (butlast ?segs) @ ''.*''"
        using e by (simp add: join_dot_append)
      then have p: "p = join_dot (butlast ?segs)" by simp
      have "path = join_dot (butlast ?segs @ [last ?segs])"
        using split_dot_nonempty [of path] by (simp add: join_split)
      then have "path = p @ ''.'' @ last ?segs" using ne p by (simp add: join_dot_append)
      moreover have "CHR ''.'' \<notin> set (last ?segs)"
        using split_dot_no_dot [of "last ?segs" path] split_dot_nonempty [of path] by simp
      ultimately show ?thesis by blast
    qed
  next
    assume "\<exists>c. CHR ''.'' \<notin> set c \<and> path = p @ ''.'' @ c"
    then obtain c where c: "CHR ''.'' \<notin> set c" "path = p @ ''.'' @ c" by blast
    then have "?segs = split_dot p @ [c]" by (simp add: split_dot_dot split_dot_single)
    then have "join_dot (butlast ?segs @ [''*'']) = p @ ''.*''"
      using split_dot_nonempty [of p] by (simp add: join_dot_append join_split)
    then show "p @ ''.*'' = path \<or> p @ ''.*'' = join_dot (butlast ?segs @ [''*''])" by simp
  qed
  show ?thesis unfolding getListeners_patterns using a b c by auto
qed

lemma deep_pattern_fires:
  "(p @ ''.**'' \<in> fst ` set (getListeners path L)) =
     (p @ ''.**'' \<in> fst ` set L \<and> (\<exists>rest. path = p @ ''.'' @ rest))"
proof -
  let ?segs = "split_dot path"
  have a: "p @ ''.**'' \<noteq> ''**''" by (cases p rule: rev_cases) auto
  have b: "p @ ''.**'' \<noteq> join_dot (butlast ?segs @ [''*''])"
  proof (cases "butlast ?segs = []")
    case True
    then show ?thesis by simp
  next
    case False
    have "rev (p @ ''.**'') \<noteq> rev (join_dot (butlast ?segs) @ ''.*'')" by simp
    then show ?thesis using False by (simp add: join_dot_append)
  qed
  have c: "(p @ ''.**'' = path \<or> p @ ''.**'' \<in> deep_patterns [] ?segs)
           = (\<exists>rest. path = p @ ''.'' @ rest)"
  proof
    assume "p @ ''.**'' = path \<or> p @ ''.**'' \<in> deep_patterns [] ?segs"
    then show "\<exists>rest. path = p @ ''.'' @ rest"
    proof
      assume "p @ ''.**'' = path"
      then have "path = p @ ''.'' @ ''**''" by simp
      then show ?thesis by blast
    next
      assume "p @ ''.**'' \<in> deep_patterns [] ?segs"
      then obtain k where k: "0 < k" "k < length ?segs" "p @ ''.**'' = join_dot (take k ?segs @ [''**''])"
        by (auto simp: deep_patterns_def)
      have ne: "take k ?segs \<noteq> []" "drop k ?segs \<noteq> []" using k by auto
      then have "p @ ''.**'' = join_dot (take k ?segs) @ ''.**''"
        using k(3) by (simp add: join_dot_append)
      then have p: "p = join_dot (take k ?segs)" by simp
      have "join_dot ?segs = join_dot (take k ?segs) @ CHR ''.'' # join_dot (drop k ?segs)"
        using join_dot_append [OF ne] by simp
      then have "path = p @ ''.'' @ join_dot (drop k ?segs)"
        using p by (simp add: join_split)
      then show ?thesis by blast
    qed
  next
    assume "\<exists>rest. path = p @ ''.'' @ rest"
    then obtain rest where "path = p @ ''.'' @ rest" by blast
    then have segs: "?segs = split_dot p @ split_dot rest" by (simp add: split_dot_dot)
    let ?k = "length (split_dot p)"
    have "0 < ?k" "?k < length ?segs"
      using split_dot_nonempty [of p] split_dot_nonempty [of rest] segs by auto
    moreover have "join_dot (take ?k ?segs @ [''**'']) = p @ ''.**''"
      using segs split_dot_nonempty [of p] by (simp add: join_dot_append join_split)
    ultimately have "p @ ''.**'' \<in> deep_patterns [] ?segs"
      unfolding deep_patterns_def by (metis (mono_tags, lifting) append_Nil image_eqI mem_Collect_eq)
    then show "p @ ''.**'' = path \<or> p @ ''.**'' \<in> deep_patterns [] ?segs" by simp
  qed
  show ?thesis unfolding getListeners_patterns using a b c by auto
qed


text \<open>
  C2, as stated, fails: a listener on \<open>user.**\<close> does not fire when \<open>user\<close> itself is
  the changed path. \<open>getListeners\<close> looks up \<open>q.**\<close> only while it is not at the last
  segment of the path.
\<close>

theorem deep_wildcard_counterexample:
  "(let beh = (\<lambda>tr n a. Returns Undefined);
        s1 = fst (change beh ''user.**'' True (UserHandler 0) None (startup [] True 0));
        s2 = fst (set_value beh ''user'' (Str ''x'') False Undefined s1)
    in map fst (propertyListeners s1) = [''user.**'']
       \<and> getDifferences (prev_dd s2) (dd s2) = [''user'']
       \<and> getListeners ''user'' (propertyListeners s1) = []
       \<and> calls s2 = [])"
  by code_simp

text \<open>
  C2, amended: for a path \<open>p0...pn\<close> the registered patterns that \<open>getListeners\<close>
  returns are exactly \<open>**\<close>, the path itself, \<open>p0...p(n-1).*\<close>, and \<open>q.**\<close> for the
  prefixes \<open>q\<close> that are shorter than the path. So a listener on \<open>p.*\<close> fires exactly
  for the direct children of \<open>p\<close>, and a listener on \<open>p.**\<close> exactly for the paths
  below \<open>p\<close> at any depth, not for \<open>p\<close> itself.
\<close>

theorem getListeners_matches:
  "fst ` set (getListeners path L) =
     {pat \<in> fst ` set L.
        pat = ''**'' \<or> pat = path \<or> pat = join_dot (butlast (split_dot path) @ [''*''])
        \<or> (\<exists>k. 0 < k \<and> k < length (split_dot path)
                 \<and> pat = join_dot (take k (split_dot path) @ [''**'']))}
   \<and> ((p @ ''.*'' \<in> fst ` set (getListeners path L)) =
        (p @ ''.*'' \<in> fst ` set L \<and> (\<exists>c. CHR ''.'' \<notin> set c \<and> path = p @ ''.'' @ c)))
   \<and> ((p @ ''.**'' \<in> fst ` set (getListeners path L)) =
        (p @ ''.**'' \<in> fst ` set L \<and> (\<exists>rest. path = p @ ''.'' @ rest)))"
proof -
  have "deep_patterns [] (split_dot path) =
          {pat. \<exists>k. 0 < k \<and> k < length (split_dot path)
                    \<and> pat = join_dot (take k (split_dot path) @ [''**''])}"
    by (auto simp: deep_patterns_def)
  then have "fst ` set (getListeners path L) =
     {pat \<in> fst ` set L.
        pat = ''**'' \<or> pat = path \<or> pat = join_dot (butlast (split_dot path) @ [''*''])
        \<or> (\<exists>k. 0 < k \<and> k < length (split_dot path)
                 \<and> pat = join_dot (take k (split_dot path) @ [''**'']))}"
    unfolding getListeners_patterns by simp
  then show ?thesis using star_pattern_fires [of p path L] deep_pattern_fires [of p path L]
    by blast
qed

text \<open>
  C3: registering the same handler twice for the same pattern should change nothing. On
  the code the second \<open>listen("e", false, h)\<close> adds a second record, and
  \<open>trigger("e")\<close> then calls \<open>h\<close> twice.
\<close>

theorem register_twice_fires_twice:
  "(let beh = (\<lambda>tr n a. Returns Undefined);
        s1 = fst (listen beh (Single ''e'') (Some False) (UserHandler 0) None (startup [] True 0));
        s2 = fst (listen beh (Single ''e'') (Some False) (UserHandler 0) None s1);
        s3 = fst (trigger beh ''e'' Undefined s2)
    in map (map handler \<circ> snd) (eventListeners s1) = [[UserHandler 0]]
       \<and> map (map handler \<circ> snd) (eventListeners s2) = [[UserHandler 0, UserHandler 0]]
       \<and> map (fst \<circ> snd) (calls s3) = [UserHandler 0, UserHandler 0])"
  by code_simp

section \<open>Properties of the event trigger\<close>

lemmas engine_defs = listen_def trigger_def registerListener_def get_registry_def set_registry_def
  record_is_handler_def getListeners_def lookup_entry_def fire_def invoke_def mark_once_def
  handleError_def isTriggered_def event_name_def Let_def

lemma listen_gated:
  assumes "events s = [] \<or> events s = [plain_event ''evtA'' t] \<or> events s = [plain_event ''evtB'' t]"
    and "eventListeners s = []"
  shows "listen beh (Multiple [''evtA'', ''evtB'']) hist (UserHandler n) i s =
     (s\<lparr>eventListeners := gated_registry (UserHandler n) i (next_rid s) (Suc (next_rid s)),
         next_rid := Suc (Suc (next_rid s))\<rparr>, None)"
  using assms by (auto simp: engine_defs gated_registry_def plain_event_def)

lemma trigger_ungated:
  assumes "events s = []" and "eventListeners s = [] \<or> eventListeners s = gated_registry h i r1 r2"
    and "name = ''evtA'' \<or> name = ''evtB''"
  shows "trigger beh name Undefined s = (s\<lparr>events := [plain_event name (clock s)]\<rparr>, None)"
  using assms by (auto simp: engine_defs gated_registry_def plain_event_def)

lemma trigger_gated_B:
  assumes "events s = [plain_event ''evtA'' t]" and "eventListeners s = gated_registry h i r1 r2"
  shows "calls (fst (trigger beh ''evtB'' Undefined s)) = calls s @ [(r1, h, Obj (plain_event ''evtB'' (clock s)))]"
proof (cases h)
  case (UserHandler n)
  show ?thesis
  proof (cases "beh (calls s) n (Obj (plain_event ''evtB'' (clock s)))")
    case (Returns v)
    then show ?thesis using assms UserHandler by (simp add: engine_defs gated_registry_def plain_event_def)
  next
    case (Throws e)
    then show ?thesis using assms UserHandler by (simp add: engine_defs gated_registry_def plain_event_def)
  qed
next
  case (PersistenceListener p)
  then show ?thesis using assms by (simp add: engine_defs gated_registry_def plain_event_def persist_store_def)
qed

lemma trigger_gated_A:
  assumes "events s = [plain_event ''evtB'' t]" and "eventListeners s = gated_registry h i r1 r2"
  shows "calls (fst (trigger beh ''evtA'' Undefined s)) = calls s @ [(r2, h, Obj (plain_event ''evtA'' (clock s)))]"
proof (cases h)
  case (UserHandler n)
  show ?thesis
  proof (cases "beh (calls s) n (Obj (plain_event ''evtA'' (clock s)))")
    case (Returns v)
    then show ?thesis using assms UserHandler by (simp add: engine_defs gated_registry_def plain_event_def)
  next
    case (Throws e)
    then show ?thesis using assms UserHandler by (simp add: engine_defs gated_registry_def plain_event_def)
  qed
next
  case (PersistenceListener p)
  then show ?thesis using assms by (simp add: engine_defs gated_registry_def plain_event_def persist_store_def)
qed

text \<open>
  C1: on an engine with no event listener and no event so far, a handler registered with
  \<open>listen(["evtA","evtB"], h)\<close> is called exactly once by one \<open>trigger("evtA")\<close> and
  one \<open>trigger("evtB")\<close>, in either order, and the call is made by the second of the
  two triggers; the same holds when the registration comes between the two triggers.
\<close>

theorem dependency_gating:
  assumes "events s = []" and "eventListeners s = []"
  shows "(let s1 = fst (listen beh (Multiple [''evtA'', ''evtB'']) hist (UserHandler n) i s);
              s2 = fst (trigger beh ''evtA'' Undefined s1);
              s3 = fst (trigger beh ''evtB'' Undefined s2)
          in calls s1 = calls s \<and> calls s2 = calls s
             \<and> (\<exists>r a. calls s3 = calls s @ [(r, UserHandler n, a)]))
       \<and> (let s1 = fst (listen beh (Multiple [''evtA'', ''evtB'']) hist (UserHandler n) i s);
              s2 = fst (trigger beh ''evtB'' Undefined s1);
              s3 = fst (trigger beh ''evtA'' Undefined s2)
          in calls s1 = calls s \<and> calls s2 = calls s
             \<and> (\<exists>r a. calls s3 = calls s @ [(r, UserHandler n, a)]))
       \<and> (let s1 = fst (trigger beh ''evtA'' Undefined s);
              s2 = fst (listen beh (Multiple [''evtA'', ''evtB'']) hist (UserHandler n) i s1);
              s3 = fst (trigger beh ''evtB'' Undefined s2)
          in calls s1 = calls s \<and> calls s2 = calls s
             \<and> (\<exists>r a. calls s3 = calls s @ [(r, UserHandler n, a)]))
       \<and> (let s1 = fst (trigger beh ''evtB'' Undefined s);
              s2 = fst (listen beh (Multiple [''evtA'', ''evtB'']) hist (UserHandler n) i s1);
              s3 = fst (trigger beh ''evtA'' Undefined s2)
          in calls s1 = calls s \<and> calls s2 = calls s
             \<and> (\<exists>r a. calls s3 = calls s @ [(r, UserHandler n, a)]))"
proof -
  let ?h = "UserHandler n"
  let ?listen = "\<lambda>s. fst (listen beh (Multiple [''evtA'', ''evtB'']) hist ?h i s)"
  let ?R = "gated_registry ?h i (next_rid s) (Suc (next_rid s))"
  have l0: "?listen s = s\<lparr>eventListeners := ?R, next_rid := Suc (Suc (next_rid s))\<rparr>"
    using assms by (simp add: listen_gated)
  have first: "\<And>name u. name = ''evtA'' \<or> name = ''evtB'' \<Longrightarrow> events u = [] \<Longrightarrow>
        eventListeners u = [] \<or> eventListeners u = ?R \<Longrightarrow>
        fst (trigger beh name Undefined u) = u\<lparr>events := [plain_event name (clock u)]\<rparr>"
    by (simp add: trigger_ungated)
  have A1: "fst (trigger beh ''evtA'' Undefined (?listen s))
            = (?listen s)\<lparr>events := [plain_event ''evtA'' (clock s)]\<rparr>"
    using first [of "''evtA''" "?listen s"] assms l0 by simp
  have B1: "fst (trigger beh ''evtB'' Undefined (?listen s))
            = (?listen s)\<lparr>events := [plain_event ''evtB'' (clock s)]\<rparr>"
    using first [of "''evtB''" "?listen s"] assms l0 by simp
  have c1: "\<exists>r a. calls (fst (trigger beh ''evtB'' Undefined (fst (trigger beh ''evtA'' Undefined (?listen s)))))
              = calls s @ [(r, ?h, a)]"
    unfolding A1 using trigger_gated_B [of "(?listen s)\<lparr>events := [plain_event ''evtA'' (clock s)]\<rparr>" "clock s" ?h i "next_rid s" "Suc (next_rid s)" beh]
    by (simp add: l0)
  have c2: "\<exists>r a. calls (fst (trigger beh ''evtA'' Undefined (fst (trigger beh ''evtB'' Undefined (?listen s)))))
              = calls s @ [(r, ?h, a)]"
    unfolding B1 using trigger_gated_A [of "(?listen s)\<lparr>events := [plain_event ''evtB'' (clock s)]\<rparr>" "clock s" ?h i "next_rid s" "Suc (next_rid s)" beh]
    by (simp add: l0)
  have A0: "fst (trigger beh ''evtA'' Undefined s) = s\<lparr>events := [plain_event ''evtA'' (clock s)]\<rparr>"
    using first [of "''evtA''" s] assms by simp
  have B0: "fst (trigger beh ''evtB'' Undefined s) = s\<lparr>events := [plain_event ''evtB'' (clock s)]\<rparr>"
    using first [of "''evtB''" s] assms by simp
  have lA: "?listen (s\<lparr>events := [plain_event ''evtA'' (clock s)]\<rparr>)
            = s\<lparr>events := [plain_event ''evtA'' (clock s)], eventListeners := ?R, next_rid := Suc (Suc (next_rid s))\<rparr>"
    using assms by (simp add: listen_gated [where t = "clock s"])
  have lB: "?listen (s\<lparr>events := [plain_event ''evtB'' (clock s)]\<rparr>)
            = s\<lparr>events := [plain_event ''evtB'' (clock s)], eventListeners := ?R, next_rid := Suc (Suc (next_rid s))\<rparr>"
    using assms by (simp add: listen_gated [where t = "clock s"])
  have c3: "\<exists>r a. calls (fst (trigger beh ''evtB'' Undefined (?listen (fst (trigger beh ''evtA'' Undefined s)))))
              = calls s @ [(r, ?h, a)]"
    unfolding A0 lA using trigger_gated_B [of "s\<lparr>events := [plain_event ''evtA'' (clock s)], eventListeners := ?R, next_rid := Suc (Suc (next_rid s))\<rparr>" "clock s" ?h i "next_rid s" "Suc (next_rid s)" beh]
    by simp
  have c4: "\<exists>r a. calls (fst (trigger beh ''evtA'' Undefined (?listen (fst (trigger beh ''evtB'' Undefined s)))))
              = calls s @ [(r, ?h, a)]"
    unfolding B0 lB using trigger_gated_A [of "s\<lparr>events := [plain_event ''evtB'' (clock s)], eventListeners := ?R, next_rid := Suc (Suc (next_rid s))\<rparr>" "clock s" ?h i "next_rid s" "Suc (next_rid s)" beh]
    by simp
  show ?thesis
    unfolding Let_def using c1 c2 c3 c4
    by (simp add: l0 A1 [unfolded l0] B1 [unfolded l0] A0 B0 lA lB)
qed


theorem dependency_gating_witness:
  "events (startup [] True 0) = [] \<and> eventListeners (startup [] True 0) = []
   \<and> (\<exists>r a. calls (fst (trigger (\<lambda>tr n a. Returns Undefined) ''evtB'' Undefined
                 (fst (trigger (\<lambda>tr n a. Returns Undefined) ''evtA'' Undefined
                   (fst (listen (\<lambda>tr n a. Returns Undefined) (Multiple [''evtA'', ''evtB''])
                          None (UserHandler 0) None (startup [] True 0)))))))
              = [(r, UserHandler 0, a)])"
proof -
  have h1: "events (startup [] True 0) = []" by code_simp
  have h2: "eventListeners (startup [] True 0) = []" by code_simp
  have c: "calls (startup [] True 0) = []" by code_simp
  show ?thesis
    using h1 h2 dependency_gating [OF h1 h2, where beh = "\<lambda>tr n a. Returns Undefined"
        and hist = None and n = 0 and i = None]
    by (simp add: Let_def c)
qed

section \<open>Properties of the dispatcher\<close>

lemma kept_refl: "marked r s \<Longrightarrow> kept r s s"
  by (simp add: kept_def)

lemma kept_trans: "kept r s s1 \<Longrightarrow> kept r s1 s2 \<Longrightarrow> kept r s s2"
  by (auto simp: kept_def)

lemma kept_marked: "kept r s s' \<Longrightarrow> marked r s'"
  by (simp add: kept_def)

lemma records_frame [simp]:
  "records k (s\<lparr>calls := c\<rparr>) = records k s"
  "records k (s\<lparr>storage := st\<rparr>) = records k s"
  "records k (s\<lparr>errors := er\<rparr>) = records k s"
  "records k (s\<lparr>dd := d\<rparr>) = records k s"
  "records k (s\<lparr>prev_dd := pd\<rparr>) = records k s"
  "records k (s\<lparr>events := ev\<rparr>) = records k s"
  "records k (s\<lparr>pathsToPersist := pp\<rparr>) = records k s"
  "records k (s\<lparr>next_rid := n\<rparr>) = records k s"
  by (cases k; simp add: records_def get_registry_def)+

lemma marked_frame [simp]:
  "marked r (s\<lparr>calls := c\<rparr>) = marked r s"
  "marked r (s\<lparr>storage := st\<rparr>) = marked r s"
  "marked r (s\<lparr>errors := er\<rparr>) = marked r s"
  "marked r (s\<lparr>dd := d\<rparr>) = marked r s"
  "marked r (s\<lparr>prev_dd := pd\<rparr>) = marked r s"
  "marked r (s\<lparr>events := ev\<rparr>) = marked r s"
  "marked r (s\<lparr>pathsToPersist := pp\<rparr>) = marked r s"
  by (simp_all add: marked_def)

lemma kept_frame:
  "marked r s \<Longrightarrow> kept r s (s\<lparr>storage := st\<rparr>)"
  "marked r s \<Longrightarrow> kept r s (s\<lparr>errors := er\<rparr>)"
  "marked r s \<Longrightarrow> kept r s (s\<lparr>dd := d\<rparr>)"
  "marked r s \<Longrightarrow> kept r s (s\<lparr>prev_dd := pd\<rparr>)"
  "marked r s \<Longrightarrow> kept r s (s\<lparr>events := ev\<rparr>)"
  "marked r s \<Longrightarrow> kept r s (s\<lparr>pathsToPersist := pp\<rparr>)"
  by (simp_all add: kept_def)

lemma kept_persist_store: "marked r s \<Longrightarrow> kept r s (persist_store key v ttl s)"
  by (simp add: persist_store_def Let_def kept_frame kept_refl)

lemma kept_handleError: "marked r s \<Longrightarrow> kept r s (fst (handleError e name s))"
  by (simp add: handleError_def kept_frame kept_refl)

lemma kept_cloneDD: "marked r s \<Longrightarrow> kept r s (cloneDDtoPreviousDD s)"
  by (simp add: cloneDDtoPreviousDD_def kept_frame)

lemma set_concat_update:
  "set (concat (map snd (AList.update p v al))) \<subseteq> set v \<union> set (concat (map snd al))"
  by (induction al) auto

lemma records_set_registry:
  "records k' (set_registry k reg s) = (if k' = k then concat (map snd reg) else records k' s)"
  by (cases k; cases k'; simp add: records_def get_registry_def set_registry_def)

lemma next_rid_set_registry [simp]: "next_rid (set_registry k reg s) = next_rid s"
  by (cases k; simp add: set_registry_def)

lemma calls_set_registry [simp]: "calls (set_registry k reg s) = calls s"
  by (cases k; simp add: set_registry_def)

lemma lookup_in_records:
  "map_of (get_registry k s) pattern = Some hs \<Longrightarrow> i < length hs \<Longrightarrow> hs ! i \<in> set (records k s)"
  by (force simp: records_def dest: map_of_SomeD)

lemma marked_mark_once: "marked r s \<Longrightarrow> marked r (mark_once k pattern i s)"
proof (cases "map_of (get_registry k s) pattern")
  case None
  assume "marked r s"
  then show ?thesis using None by (simp add: mark_once_def)
next
  case (Some hs)
  assume m: "marked r s"
  show ?thesis
  proof (cases "i < length hs")
    case False
    then show ?thesis using m Some by (simp add: mark_once_def)
  next
    case True
    let ?new = "hs[i := (hs ! i)\<lparr>once := True\<rparr>]"
    have hs: "set hs \<subseteq> set (records k s)"
      using Some by (force simp: records_def dest: map_of_SomeD)
    have "set (concat (map snd (AList.update pattern ?new (get_registry k s))))
            \<subseteq> insert ((hs ! i)\<lparr>once := True\<rparr>) (set (records k s))"
      using set_concat_update [of pattern ?new "get_registry k s"]
        set_update_subset_insert [of hs i "(hs ! i)\<lparr>once := True\<rparr>"] hs
      by (auto simp: records_def)
    then show ?thesis using m Some True
      by (auto simp: mark_once_def marked_def records_set_registry)
  qed
qed

lemma kept_mark_once: "marked r s \<Longrightarrow> kept r s (mark_once k pattern i s)"
  using marked_mark_once [of r s k pattern i]
  by (auto simp: kept_def mark_once_def split: option.splits)

lemma kept_invoke:
  "marked r s \<Longrightarrow> r0 \<noteq> r \<Longrightarrow> kept r s (fst (invoke beh r0 h a s))"
  by (cases h) (auto simp: invoke_def kept_def persist_store_def Let_def)

lemma kept_fire: "marked r s \<Longrightarrow> kept r s (fst (fire beh k pattern i arg name s))"
proof -
  assume m: "marked r s"
  show ?thesis
  proof (cases "map_of (get_registry k s) pattern")
    case None
    then show ?thesis using m by (simp add: fire_def kept_refl)
  next
    case (Some hs)
    show ?thesis
    proof (cases "i < length hs \<and> \<not> once (hs ! i)")
      case False
      then show ?thesis using m Some by (auto simp: fire_def kept_refl)
    next
      case True
      have "hs ! i \<in> set (records k s)" using Some True by (simp add: lookup_in_records)
      then have ne: "rid (hs ! i) \<noteq> r" using m True by (auto simp: marked_def)
      show ?thesis
      proof (cases arg)
        case (Inl e)
        then show ?thesis using m Some True by (simp add: fire_def Let_def kept_handleError)
      next
        case (Inr a)
        obtain s1 out where inv: "invoke beh (rid (hs ! i)) (handler (hs ! i)) a s = (s1, out)"
          by (cases "invoke beh (rid (hs ! i)) (handler (hs ! i)) a s") auto
        have k1: "kept r s s1" using kept_invoke [OF m ne, of beh "handler (hs ! i)" a] inv by simp
        then have m1: "marked r s1" by (rule kept_marked)
        show ?thesis
        proof (cases out)
          case (Returns v)
          then show ?thesis
            using Some True Inr inv k1 kept_trans [OF k1 kept_mark_once [OF m1, of k pattern i]]
            by (simp add: fire_def Let_def)
        next
          case (Throws e)
          then show ?thesis
            using Some True Inr inv kept_trans [OF k1 kept_handleError [OF m1, of "Thrown e" name]]
            by (simp add: fire_def Let_def)
        qed
      qed
    qed
  qed
qed


lemma kept_change_handlers_loop:
  "marked r s \<Longrightarrow> kept r s (fst (change_handlers_loop beh k p h n s fs))"
proof (induction n arbitrary: h s fs)
  case 0
  then show ?case by (simp add: kept_refl)
next
  case (Suc n)
  let ?arg = "getObjectAtPath (strip_wildcard p) (Obj (dd s)) (Obj (dd s))"
  obtain s1 e where f: "fire beh k p h ?arg ''listener-changehandler'' s = (s1, e)"
    by (cases "fire beh k p h ?arg ''listener-changehandler'' s") auto
  have k1: "kept r s s1"
    using kept_fire [OF Suc.prems, of beh k p h ?arg "''listener-changehandler''"] f by simp
  show ?case
  proof (cases e)
    case None
    then show ?thesis using f kept_trans [OF k1 Suc.IH [OF kept_marked [OF k1]]] by simp
  next
    case (Some ex)
    then show ?thesis using f k1 by simp
  qed
qed

lemma kept_change_listeners_loop:
  "marked r s \<Longrightarrow> kept r s (fst (change_listeners_loop beh k ps s ls fs))"
proof (induction ps arbitrary: s ls fs)
  case Nil
  then show ?case by (simp add: kept_refl)
next
  case (Cons p ps)
  let ?n = "case map_of (get_registry k s) p of Some hs \<Rightarrow> length hs | None \<Rightarrow> 0"
  obtain s1 fs1 e where f: "change_handlers_loop beh k p 0 ?n s fs = (s1, fs1, e)"
    by (cases "change_handlers_loop beh k p 0 ?n s fs") auto
  have k1: "kept r s s1" using kept_change_handlers_loop [OF Cons.prems, of beh k p 0 ?n fs] f by simp
  show ?case
  proof (cases "p \<in> set ls")
    case True
    then show ?thesis using Cons by simp
  next
    case False
    show ?thesis
    proof (cases e)
      case None
      then show ?thesis using False f kept_trans [OF k1 Cons.IH [OF kept_marked [OF k1]]] by simp
    next
      case (Some ex)
      then show ?thesis using False f k1 by simp
    qed
  qed
qed

lemma kept_change_differences_loop:
  "marked r s \<Longrightarrow> kept r s (fst (change_differences_loop beh k ds s ls fs))"
proof (induction ds arbitrary: s ls fs)
  case Nil
  then show ?case by (simp add: kept_refl)
next
  case (Cons d ds)
  let ?ps = "map fst (getListeners d (get_registry k s))"
  obtain s1 ls1 fs1 e where f: "change_listeners_loop beh k ?ps s ls fs = (s1, ls1, fs1, e)"
    by (cases "change_listeners_loop beh k ?ps s ls fs") auto
  have k1: "kept r s s1" using kept_change_listeners_loop [OF Cons.prems, of beh k ?ps ls fs] f by simp
  show ?case
  proof (cases e)
    case None
    then show ?thesis using f kept_trans [OF k1 Cons.IH [OF kept_marked [OF k1]]] by simp
  next
    case (Some ex)
    then show ?thesis using f k1 by simp
  qed
qed

lemma kept_invokeChangeListenersForListenerSet:
  "marked r s \<Longrightarrow> kept r s (fst (invokeChangeListenersForListenerSet beh k s))"
proof -
  assume m: "marked r s"
  let ?ds = "rev (getDifferences (prev_dd s) (dd s))"
  obtain s1 ls fs e where f: "change_differences_loop beh k ?ds s [] [] = (s1, ls, fs, e)"
    by (cases "change_differences_loop beh k ?ds s [] []") auto
  show ?thesis
    using kept_change_differences_loop [OF m, of beh k ?ds "[]" "[]"] f
    by (simp add: invokeChangeListenersForListenerSet_def Let_def)
qed

lemma kept_invokeChangeListeners:
  assumes "marked r s"
  shows "kept r s (fst (invokeChangeListeners beh s))"
proof -
  obtain s1 fs1 e1 where a: "invokeChangeListenersForListenerSet beh PersistenceListeners s = (s1, fs1, e1)"
    by (cases "invokeChangeListenersForListenerSet beh PersistenceListeners s") auto
  have k1: "kept r s s1"
    using kept_invokeChangeListenersForListenerSet [OF assms, of beh PersistenceListeners] a by simp
  obtain s2 fs2 e2 where b: "invokeChangeListenersForListenerSet beh PropertyListeners s1 = (s2, fs2, e2)"
    by (cases "invokeChangeListenersForListenerSet beh PropertyListeners s1") auto
  have k2: "kept r s s2"
    using kept_trans [OF k1 kept_invokeChangeListenersForListenerSet [OF kept_marked [OF k1], of beh PropertyListeners]] b
    by simp
  show ?thesis using a b k1 k2
    by (cases e1; cases e2) (simp_all add: invokeChangeListeners_def)
qed


lemma get_registry_EventListeners [simp]: "get_registry EventListeners s = eventListeners s"
  by (simp add: get_registry_def)

lemma kept_trigger_handlers_loop:
  "marked r s \<Longrightarrow> kept r s (fst (trigger_handlers_loop beh en ev ivk p h n s))"
proof (induction n arbitrary: h s)
  case 0
  then show ?case by (simp add: kept_refl)
next
  case (Suc n)
  show ?case
  proof (cases "map_of (eventListeners s) p")
    case None
    then show ?thesis using Suc.prems by (simp add: kept_refl)
  next
    case (Some hs)
    show ?thesis
    proof (cases "h < length hs")
      case False
      then show ?thesis using Suc.prems Some by (simp add: kept_refl)
    next
      case True
      define X where "X =
        (case dependsOn (hs ! h) of
           None \<Rightarrow> if handler (hs ! h) \<notin> set ivk
                   then fire beh EventListeners p h (Inr ev) ''listener-handler'' s else (s, None)
         | Some deps \<Rightarrow>
             (let numTriggered = length (filter (\<lambda>d. d = en \<or> isTriggered d s) (rev deps))
              in if numTriggered = length deps \<and> handler (hs ! h) \<notin> set ivk
                 then fire beh EventListeners p h (Inr ev) ''listener-handler'' s else (s, None)))"
      have kx: "kept r s (fst X)"
        unfolding X_def using Suc.prems
        by (simp add: kept_fire kept_refl Let_def split: option.splits)
      have unf: "trigger_handlers_loop beh en ev ivk p h (Suc n) s =
                 (case X of (s1, Some e) \<Rightarrow> (s1, Some e)
                  | (s1, None) \<Rightarrow> trigger_handlers_loop beh en ev ivk p (Suc h) n s1)"
        using Some True by (simp add: X_def Let_def)
      obtain s1 e where x: "X = (s1, e)" by (cases X) auto
      have k1: "kept r s s1" using kx x by simp
      show ?thesis
      proof (cases e)
        case None
        then show ?thesis
          unfolding unf using x kept_trans [OF k1 Suc.IH [OF kept_marked [OF k1]]] by simp
      next
        case (Some ex)
        then show ?thesis unfolding unf using x k1 by simp
      qed
    qed
  qed
qed

lemma kept_trigger_listeners_loop:
  "marked r s \<Longrightarrow> kept r s (fst (trigger_listeners_loop beh en ev ivk ps s))"
proof (induction ps arbitrary: s)
  case Nil
  then show ?case by (simp add: kept_refl)
next
  case (Cons p ps)
  let ?n = "case map_of (eventListeners s) p of Some hs \<Rightarrow> length hs | None \<Rightarrow> 0"
  obtain s1 e where f: "trigger_handlers_loop beh en ev ivk p 0 ?n s = (s1, e)"
    by (cases "trigger_handlers_loop beh en ev ivk p 0 ?n s") auto
  have k1: "kept r s s1"
    using kept_trigger_handlers_loop [OF Cons.prems, of beh en ev ivk p 0 ?n] f by simp
  show ?case
  proof (cases e)
    case None
    then show ?thesis using f kept_trans [OF k1 Cons.IH [OF kept_marked [OF k1]]] by simp
  next
    case (Some ex)
    then show ?thesis using f k1 by simp
  qed
qed

lemma kept_trigger:
  assumes "marked r s"
  shows "kept r s (fst (trigger beh eventName payload s))"
proof -
  define event where "event =
    AList.update ''timestamp'' (Num (of_int (clock s)))
      (AList.update ''name'' (Str eventName) (case payload of Obj kvs \<Rightarrow> kvs | _ \<Rightarrow> []))"
  define C where "C =
    (case map_of event ''dd'' of
       Some (Obj patch) \<Rightarrow>
         invokeChangeListeners beh
           ((cloneDDtoPreviousDD s)
              \<lparr>dd := mergeObjects (dd s)
                       (case cloneObject (Obj patch) of Obj kvs \<Rightarrow> kvs | _ \<Rightarrow> [])\<rparr>)
     | _ \<Rightarrow> (s, [], None))"
  have unf: "trigger beh eventName payload s =
     (case C of
        (s1, invokedHandlers, Some e) \<Rightarrow> handleError e ''trigger'' s1
      | (s1, invokedHandlers, None) \<Rightarrow>
          (case trigger_listeners_loop beh eventName (Obj event) invokedHandlers
                  (map fst (getListeners eventName (eventListeners s1))) s1 of
             (s2, Some e) \<Rightarrow> handleError e ''trigger'' s2
           | (s2, None) \<Rightarrow> (s2\<lparr>events := events s2 @ [event]\<rparr>, None)))"
    unfolding trigger_def Let_def C_def event_def by (rule refl)
  have kc: "kept r s (fst C)"
  proof -
    have "\<And>d. kept r s (fst (invokeChangeListeners beh ((cloneDDtoPreviousDD s)\<lparr>dd := d\<rparr>)))"
    proof -
      fix d
      have m1: "marked r ((cloneDDtoPreviousDD s)\<lparr>dd := d\<rparr>)"
        using assms by (simp add: cloneDDtoPreviousDD_def)
      have "kept r s ((cloneDDtoPreviousDD s)\<lparr>dd := d\<rparr>)"
        using assms by (simp add: kept_def cloneDDtoPreviousDD_def)
      then show "kept r s (fst (invokeChangeListeners beh ((cloneDDtoPreviousDD s)\<lparr>dd := d\<rparr>)))"
        using kept_trans kept_invokeChangeListeners [OF m1] by blast
    qed
    then show ?thesis
      unfolding C_def using assms by (simp add: kept_refl split: option.splits jsval.splits)
  qed
  obtain s1 ivk e where c: "C = (s1, ivk, e)" by (cases C) auto
  have k1: "kept r s s1" using kc c by simp
  show ?thesis
  proof (cases e)
    case (Some ex)
    then show ?thesis
      unfolding unf using c kept_trans [OF k1 kept_handleError [OF kept_marked [OF k1]]] by simp
  next
    case None
    let ?ps = "map fst (getListeners eventName (eventListeners s1))"
    obtain s2 e2 where t: "trigger_listeners_loop beh eventName (Obj event) ivk ?ps s1 = (s2, e2)"
      by (cases "trigger_listeners_loop beh eventName (Obj event) ivk ?ps s1") auto
    have k2: "kept r s s2"
      using kept_trans [OF k1 kept_trigger_listeners_loop [OF kept_marked [OF k1], of beh eventName "Obj event" ivk ?ps]] t
      by simp
    show ?thesis
    proof (cases e2)
      case (Some ex)
      then show ?thesis
        unfolding unf using c None t kept_trans [OF k2 kept_handleError [OF kept_marked [OF k2]]]
        by simp
    next
      case None2: None
      have "kept r s2 (s2\<lparr>events := events s2 @ [event]\<rparr>)"
        using kept_marked [OF k2] by (simp add: kept_frame)
      then show ?thesis
        unfolding unf using c None None2 t kept_trans [OF k2] by simp
    qed
  qed
qed


lemma kept_replay_handlers_loop:
  "marked r s \<Longrightarrow> kept r s (fst (replay_handlers_loop beh h0 ev tr p n s))"
proof (induction n arbitrary: s)
  case 0
  then show ?case by (simp add: kept_refl)
next
  case (Suc h)
  show ?case
  proof (cases "map_of (eventListeners s) p")
    case None
    then show ?thesis using Suc.prems by (simp add: kept_refl)
  next
    case (Some hs)
    show ?thesis
    proof (cases "h < length hs")
      case False
      then show ?thesis using Suc.prems Some by (simp add: kept_refl)
    next
      case True
      define X where "X =
        (case dependsOn (hs ! h) of
           None \<Rightarrow> if h0 = handler (hs ! h)
                   then fire beh EventListeners p h (Inr ev) ''listener-handler'' s else (s, None)
         | Some deps \<Rightarrow>
             (let numTriggered = length (filter (\<lambda>d. d \<in> set tr) (rev deps))
              in if numTriggered = length deps \<and> h0 = handler (hs ! h)
                 then fire beh EventListeners p h (Inr ev) ''listener-handler'' s else (s, None)))"
      have kx: "kept r s (fst X)"
        unfolding X_def using Suc.prems
        by (simp add: kept_fire kept_refl Let_def split: option.splits)
      have unf: "replay_handlers_loop beh h0 ev tr p (Suc h) s =
                 (case X of (s1, Some e) \<Rightarrow> (s1, Some e)
                  | (s1, None) \<Rightarrow> replay_handlers_loop beh h0 ev tr p h s1)"
        using Some True by (simp add: X_def Let_def)
      obtain s1 e where x: "X = (s1, e)" by (cases X) auto
      have k1: "kept r s s1" using kx x by simp
      show ?thesis
      proof (cases e)
        case None
        then show ?thesis
          unfolding unf using x kept_trans [OF k1 Suc.IH [OF kept_marked [OF k1]]] by simp
      next
        case (Some ex)
        then show ?thesis unfolding unf using x k1 by simp
      qed
    qed
  qed
qed

lemma kept_replay_listeners_loop:
  "marked r s \<Longrightarrow> kept r s (fst (replay_listeners_loop beh h0 ev tr ps s))"
proof (induction ps arbitrary: s)
  case Nil
  then show ?case by (simp add: kept_refl)
next
  case (Cons p ps)
  let ?n = "case map_of (eventListeners s) p of Some hs \<Rightarrow> length hs | None \<Rightarrow> 0"
  obtain s1 e where f: "replay_handlers_loop beh h0 ev tr p ?n s = (s1, e)"
    by (cases "replay_handlers_loop beh h0 ev tr p ?n s") auto
  have k1: "kept r s s1"
    using kept_replay_handlers_loop [OF Cons.prems, of beh h0 ev tr p ?n] f by simp
  show ?case
  proof (cases e)
    case None
    then show ?thesis using f kept_trans [OF k1 Cons.IH [OF kept_marked [OF k1]]] by simp
  next
    case (Some ex)
    then show ?thesis using f k1 by simp
  qed
qed

lemma kept_replay_events_loop:
  "marked r s \<Longrightarrow> kept r s (fst (replay_events_loop beh h0 es tr s))"
proof (induction es arbitrary: tr s)
  case Nil
  then show ?case by (simp add: kept_refl)
next
  case (Cons e es)
  let ?tr = "tr @ [event_name e]"
  let ?ps = "rev (map fst (getListeners (event_name e) (eventListeners s)))"
  obtain s1 ex where f: "replay_listeners_loop beh h0 (Obj e) ?tr ?ps s = (s1, ex)"
    by (cases "replay_listeners_loop beh h0 (Obj e) ?tr ?ps s") auto
  have k1: "kept r s s1"
    using kept_replay_listeners_loop [OF Cons.prems, of beh h0 "Obj e" ?tr ?ps] f by simp
  show ?case
  proof (cases ex)
    case None
    then show ?thesis
      using f kept_trans [OF k1 Cons.IH [OF kept_marked [OF k1]]] by (simp add: Let_def)
  next
    case (Some x)
    then show ?thesis using f k1 by (simp add: Let_def)
  qed
qed

lemma kept_registerListener:
  assumes "marked r s"
  shows "kept r s (fst (registerListener path h k dep i s))"
proof -
  define l where "l = (case map_of (get_registry k s) path of Some hs \<Rightarrow> hs | None \<Rightarrow> [])"
  define new where "new = \<lparr>handler = h, lid = (case dep of IdArg x \<Rightarrow> Some x | _ \<Rightarrow> i),
      dependsOn = (case dep of NamesArg ns \<Rightarrow> Some ns | _ \<Rightarrow> None), once = False,
      rid = next_rid s\<rparr>"
  have res: "fst (registerListener path h k dep i s) =
      set_registry k (AList.update path (l @ [new]) (get_registry k s)) (s\<lparr>next_rid := Suc (next_rid s)\<rparr>)"
    by (simp add: registerListener_def record_is_handler_def Let_def l_def new_def list_ex_iff)
  have l: "set l \<subseteq> set (records k s)"
  proof (cases "map_of (get_registry k s) path")
    case None
    then show ?thesis by (simp add: l_def)
  next
    case (Some hs)
    then show ?thesis by (force simp: l_def records_def dest: map_of_SomeD)
  qed
  have sub: "set (concat (map snd (AList.update path (l @ [new]) (get_registry k s))))
          \<subseteq> insert new (set (records k s))"
    using set_concat_update [of path "l @ [new]" "get_registry k s"] l by (auto simp: records_def)
  have "rid new \<noteq> r" using assms by (simp add: new_def marked_def)
  then have "marked r (fst (registerListener path h k dep i s))"
    unfolding res using assms sub by (auto simp: marked_def records_set_registry)
  then show ?thesis unfolding res by (simp add: kept_def)
qed

lemma kept_register_names:
  "marked r s \<Longrightarrow> kept r s (register_names todo name h i s)"
proof (induction todo arbitrary: s)
  case Nil
  then show ?case by (simp add: kept_refl)
next
  case (Cons n todo)
  have k1: "kept r s (fst (registerListener n h EventListeners (NamesArg name) i s))"
    using Cons.prems by (rule kept_registerListener)
  show ?case using kept_trans [OF k1 Cons.IH [OF kept_marked [OF k1]]] by simp
qed

lemma kept_listen:
  assumes "marked r s"
  shows "kept r s (fst (listen beh name historical h i s))"
proof -
  define s1 where "s1 = (case name of
      Multiple ns \<Rightarrow> register_names (rev ns) ns h i s
    | Single n \<Rightarrow> fst (registerListener n h EventListeners
                         (case i of Some x \<Rightarrow> IdArg x | None \<Rightarrow> NoArg) None s))"
  have k1: "kept r s s1"
    unfolding s1_def using assms
    by (simp add: kept_register_names kept_registerListener split: name_arg.splits)
  have unf: "listen beh name historical h i s =
      (if historical \<noteq> Some False
       then (case replay_events_loop beh h (events s1) [] s1 of
               (s2, Some ex) \<Rightarrow> handleError ex ''listen'' s2
             | (s2, None) \<Rightarrow> (s2, None))
       else (s1, None))"
    unfolding listen_def Let_def s1_def by (rule refl)
  obtain s2 e where f: "replay_events_loop beh h (events s1) [] s1 = (s2, e)"
    by (cases "replay_events_loop beh h (events s1) [] s1") auto
  have k2: "kept r s s2"
    using kept_trans [OF k1 kept_replay_events_loop [OF kept_marked [OF k1], of beh h "events s1" "[]"]] f
    by simp
  show ?thesis
  proof (cases e)
    case None
    then show ?thesis unfolding unf using f k1 k2 by simp
  next
    case (Some ex)
    then show ?thesis
      unfolding unf using f k1 kept_trans [OF k2 kept_handleError [OF kept_marked [OF k2], of ex]]
      by simp
  qed
qed

lemma kept_persist:
  assumes "marked r s"
  shows "kept r s (fst (persist path ttl s))"
proof -
  define s1 where "s1 = (if map_of (pathsToPersist s) path = None
                then fst (registerListener (path @ ''.**'') (PersistenceListener path)
                            PersistenceListeners NoArg None
                            (fst (registerListener path (PersistenceListener path)
                                    PersistenceListeners NoArg None s)))
                else s)"
  define s2 where "s2 = s1\<lparr>pathsToPersist := AList.update path (ttl_or_default ttl) (pathsToPersist s1)\<rparr>"
  have ka: "kept r s (fst (registerListener path (PersistenceListener path) PersistenceListeners NoArg None s))"
    using assms by (rule kept_registerListener)
  have k1: "kept r s s1"
    unfolding s1_def
    using assms ka kept_trans [OF ka kept_registerListener [OF kept_marked [OF ka]]]
    by (simp add: kept_refl)
  have k2: "kept r s s2"
    unfolding s2_def using kept_trans [OF k1 kept_frame(6) [OF kept_marked [OF k1]]] by simp
  have m2: "marked r s2" using k2 by (rule kept_marked)
  have unf: "persist path ttl s =
     (case getObjectAtPath path Undefined (Obj (dd s2)) of
           Inl e \<Rightarrow> handleError e ''persist'' s2
         | Inr v \<Rightarrow>
             (if typeof v \<noteq> ''undefined'' then (persist_store path v (ttl_or_default ttl) s2, None)
              else (s2, None)))"
    unfolding persist_def Let_def s2_def s1_def by (rule refl)
  show ?thesis
    unfolding unf
    using k2 kept_trans [OF k2 kept_handleError [OF m2]] kept_trans [OF k2 kept_persist_store [OF m2]]
    by (simp split: sum.splits)
qed

lemma kept_set_value:
  assumes "marked r s"
  shows "kept r s (fst (set_value beh path v pf ttl s))"
proof -
  define P where "P = (if pf
            then persist path (Num (of_int (ttl_or_default ttl))) (cloneDDtoPreviousDD s)
            else (cloneDDtoPreviousDD s, None))"
  have k0: "kept r s (cloneDDtoPreviousDD s)" using assms by (rule kept_cloneDD)
  have kp: "kept r s (fst P)"
    unfolding P_def using k0 kept_trans [OF k0 kept_persist [OF kept_marked [OF k0]]] by simp
  obtain s1 e where p: "P = (s1, e)" by (cases P) auto
  have k1: "kept r s s1" using kp p by simp
  have unf: "set_value beh path v pf ttl s =
     (case P of
        (s1, Some e) \<Rightarrow> (s1, Some e)
      | (s1, None) \<Rightarrow>
          (case invokeChangeListeners beh (s1\<lparr>dd := setObjectAtPath path v (dd s1)\<rparr>) of
             (s2, fs, e) \<Rightarrow> (s2, e)))"
    unfolding set_value_def P_def by (rule refl)
  show ?thesis
  proof (cases e)
    case (Some ex)
    then show ?thesis unfolding unf using p k1 by simp
  next
    case None
    let ?s = "s1\<lparr>dd := setObjectAtPath path v (dd s1)\<rparr>"
    have ka: "kept r s ?s" using kept_trans [OF k1 kept_frame(3) [OF kept_marked [OF k1]]] by simp
    obtain s2 fs e2 where i: "invokeChangeListeners beh ?s = (s2, fs, e2)"
      by (cases "invokeChangeListeners beh ?s") auto
    have "kept r s (fst (invokeChangeListeners beh ?s))"
      using kept_trans [OF ka kept_invokeChangeListeners [OF kept_marked [OF ka]]] by simp
    then show ?thesis unfolding unf using p None i by simp
  qed
qed


lemma kept_erase:
  assumes "marked r s"
  shows "kept r s (fst (erase beh path s))"
proof (cases "has path s")
  case (Inl e)
  then show ?thesis using assms by (simp add: erase_def kept_refl)
next
  case (Inr b)
  show ?thesis
  proof (cases b)
    case False
    then show ?thesis using assms Inr by (simp add: erase_def kept_refl)
  next
    case True
    define s2 where "s2 = (cloneDDtoPreviousDD s)\<lparr>dd :=
        (case delete_path (Obj (dd (cloneDDtoPreviousDD s))) (split_dot path) of
           Obj kvs \<Rightarrow> kvs | _ \<Rightarrow> dd (cloneDDtoPreviousDD s))\<rparr>"
    have k0: "kept r s (cloneDDtoPreviousDD s)" using assms by (rule kept_cloneDD)
    have k2: "kept r s s2"
      unfolding s2_def using kept_trans [OF k0 kept_frame(3) [OF kept_marked [OF k0]]] by simp
    obtain s3 fs e where i: "invokeChangeListeners beh s2 = (s3, fs, e)"
      by (cases "invokeChangeListeners beh s2") auto
    have k3: "kept r s s3"
      using kept_trans [OF k2 kept_invokeChangeListeners [OF kept_marked [OF k2], of beh]] i by simp
    have unf: "erase beh path s =
        (case invokeChangeListeners beh s2 of
                (s3, fs, Some e) \<Rightarrow> handleError e ''delete'' s3
              | (s3, fs, None) \<Rightarrow> (s3, None))"
      using Inr True by (simp add: erase_def Let_def s2_def)
    show ?thesis
      unfolding unf using i k3 kept_trans [OF k3 kept_handleError [OF kept_marked [OF k3]]]
      by (cases e) simp_all
  qed
qed

lemma kept_push:
  assumes "marked r s"
  shows "kept r s (fst (push beh path v s))"
proof -
  let ?s1 = "cloneDDtoPreviousDD s"
  have k1: "kept r s ?s1" using assms by (rule kept_cloneDD)
  have m1: "marked r ?s1" using k1 by (rule kept_marked)
  show ?thesis
  proof (cases "getObjectAtPath path (Obj (dd ?s1)) (Obj (dd ?s1))")
    case (Inl e)
    then show ?thesis
      using kept_trans [OF k1 kept_handleError [OF m1]] by (simp add: push_def Let_def)
  next
    case (Inr found)
    define s2 where "s2 = (case cloneObject found of
                       Arr xs \<Rightarrow>
                         ?s1\<lparr>dd := setObjectAtPath path
                                     (Arr (xs @ (case v of Arr ys \<Rightarrow> ys | _ \<Rightarrow> [cloneObject v])))
                                     (dd ?s1)\<rparr>
                     | _ \<Rightarrow> ?s1\<lparr>dd := setObjectAtPath path (Arr [cloneObject v]) (dd ?s1)\<rparr>)"
    have "kept r ?s1 s2"
      unfolding s2_def using m1 by (simp add: kept_frame split: jsval.splits)
    then have k2: "kept r s s2" using k1 kept_trans by blast
    obtain s3 fs e where i: "invokeChangeListeners beh s2 = (s3, fs, e)"
      by (cases "invokeChangeListeners beh s2") auto
    have k3: "kept r s s3"
      using kept_trans [OF k2 kept_invokeChangeListeners [OF kept_marked [OF k2], of beh]] i by simp
    have unf: "push beh path v s =
        (case invokeChangeListeners beh s2 of
                (s3, fs, Some e) \<Rightarrow> handleError e ''push'' s3
              | (s3, fs, None) \<Rightarrow> (s3, None))"
      using Inr unfolding push_def Let_def s2_def by simp
    show ?thesis
      unfolding unf using i k3 kept_trans [OF k3 kept_handleError [OF kept_marked [OF k3]]]
      by (cases e) simp_all
  qed
qed


lemma concat_update_split:
  "map_of al p = Some hs \<Longrightarrow>
   \<exists>pre suf. concat (map snd al) = pre @ hs @ suf
            \<and> (\<forall>v. concat (map snd (AList.update p v al)) = pre @ v @ suf)"
proof (induction al)
  case Nil
  then show ?case by simp
next
  case (Cons kv al)
  show ?case
  proof (cases "fst kv = p")
    case True
    then have "snd kv = hs" using Cons.prems by (cases kv) auto
    then have "concat (map snd (kv # al)) = [] @ hs @ concat (map snd al)
          \<and> (\<forall>v. concat (map snd (AList.update p v (kv # al))) = [] @ v @ concat (map snd al))"
      using True by (cases kv) auto
    then show ?thesis by blast
  next
    case False
    then have "map_of al p = Some hs" using Cons.prems by (cases kv) auto
    then obtain pre suf where ps: "concat (map snd al) = pre @ hs @ suf"
        "\<forall>v. concat (map snd (AList.update p v al)) = pre @ v @ suf"
      using Cons.IH by blast
    have "concat (map snd (kv # al)) = (snd kv @ pre) @ hs @ suf
          \<and> (\<forall>v. concat (map snd (AList.update p v (kv # al))) = (snd kv @ pre) @ v @ suf)"
      using False ps by (cases kv) auto
    then show ?thesis by blast
  qed
qed

lemma wf_rids_kind:
  assumes "wf_rids s" "x \<in> set (records k s)" "y \<in> set (records k' s)" "rid x = rid y"
  shows "k = k'"
  using assms by (cases k; cases k') (auto simp: wf_rids_def all_records_def)

lemma wf_rids_distinct: "wf_rids s \<Longrightarrow> distinct (map rid (records k s))"
  by (cases k) (auto simp: wf_rids_def all_records_def)

lemma wf_rids_bound: "wf_rids s \<Longrightarrow> x \<in> set (records k s) \<Longrightarrow> rid x < next_rid s"
  by (cases k) (auto simp: wf_rids_def all_records_def list_all_iff)

lemma fire_marks:
  assumes wf: "wf_rids s"
    and hs: "map_of (get_registry k s) pattern = Some hs"
    and i: "i < length hs"
    and fresh: "\<not> once (hs ! i)"
    and h: "handler (hs ! i) = UserHandler n"
    and ret: "beh (calls s) n a = Returns (Bool True)"
  shows "marked (rid (hs ! i)) (fst (fire beh k pattern i (Inr a) name s))"
proof -
  let ?x = "(hs ! i)\<lparr>once := True\<rparr>"
  let ?s1 = "s\<lparr>calls := calls s @ [(rid (hs ! i), UserHandler n, a)]\<rparr>"
  have g1: "get_registry k ?s1 = get_registry k s" by (cases k) (simp_all add: get_registry_def)
  have res: "fst (fire beh k pattern i (Inr a) name s) =
             set_registry k (AList.update pattern (hs[i := ?x]) (get_registry k s)) ?s1"
    using hs i fresh h ret by (simp add: fire_def invoke_def mark_once_def Let_def g1)
  obtain pre suf where ps: "records k s = pre @ hs @ suf"
      "concat (map snd (AList.update pattern (hs[i := ?x]) (get_registry k s))) = pre @ hs[i := ?x] @ suf"
    using concat_update_split [OF hs] by (auto simp: records_def)
  have here: "hs ! i \<in> set (records k s)" using hs i by (rule lookup_in_records)
  have d: "distinct (map rid (pre @ hs @ suf))" using wf_rids_distinct [OF wf, of k] ps by simp
  have "\<And>k' rec. rec \<in> set (records k' (fst (fire beh k pattern i (Inr a) name s))) \<Longrightarrow>
          rid rec = rid (hs ! i) \<Longrightarrow> once rec"
  proof -
    fix k' rec
    assume rec: "rec \<in> set (records k' (fst (fire beh k pattern i (Inr a) name s)))"
      and r: "rid rec = rid (hs ! i)"
    show "once rec"
    proof (cases "k' = k")
      case False
      then have "rec \<in> set (records k' s)" using rec unfolding res by (simp add: records_set_registry)
      then show ?thesis using wf_rids_kind [OF wf _ here r] False by simp
    next
      case True
      then have "rec \<in> set (pre @ hs[i := ?x] @ suf)"
        using rec ps(2) unfolding res by (simp add: records_set_registry)
      then consider "rec \<in> set pre \<or> rec \<in> set suf" | "rec \<in> set (hs[i := ?x])" by auto
      then show ?thesis
      proof cases
        case 1
        have "hs ! i \<in> set hs" using i by simp
        then show ?thesis using 1 d r by (auto simp: image_iff)
      next
        case 2
        then obtain j where j: "j < length hs" "rec = hs[i := ?x] ! j"
          by (auto simp: in_set_conv_nth)
        show ?thesis
        proof (cases "j = i")
          case True
          then show ?thesis using j by simp
        next
          case False
          then have "rid (hs ! j) = rid (hs ! i)" using j r by simp
          moreover have "distinct (map rid hs)" using d by simp
          ultimately have "j = i"
            using j(1) i by (metis length_map nth_eq_iff_index_eq nth_map)
          then show ?thesis using False by simp
        qed
      qed
    qed
  qed
  moreover have "rid (hs ! i) < next_rid (fst (fire beh k pattern i (Inr a) name s))"
    unfolding res using wf_rids_bound [OF wf here] by simp
  ultimately show ?thesis unfolding marked_def by blast
qed

text \<open>
  What holds on the code: the guarded call of the three dispatch sites marks the record
  when its handler returns \<open>true\<close>; and once a record is marked, no change dispatch
  (\<open>set\<close>, \<open>erase\<close>, \<open>push\<close>), no \<open>trigger\<close> and no replay of \<open>listen\<close> calls a
  handler through it again, and it stays marked.
\<close>

lemma marked_record_is_silent:
  "(wf_rids s0 \<and> map_of (get_registry k s0) pattern = Some hs \<and> i < length hs
      \<and> \<not> once (hs ! i) \<and> handler (hs ! i) = UserHandler n
      \<and> beh (calls s0) n a = Returns (Bool True)
    \<longrightarrow> marked (rid (hs ! i)) (fst (fire beh k pattern i (Inr a) name s0)))
   \<and> (marked r s
    \<longrightarrow> kept r s (fst (invokeChangeListeners beh s))
      \<and> kept r s (fst (set_value beh path v persist_flag ttl s))
      \<and> kept r s (fst (erase beh path s))
      \<and> kept r s (fst (push beh path v s))
      \<and> kept r s (fst (trigger beh eventName payload s))
      \<and> kept r s (fst (listen beh names historical h id_arg s)))"
proof (intro conjI impI)
  assume "wf_rids s0 \<and> map_of (get_registry k s0) pattern = Some hs \<and> i < length hs
      \<and> \<not> once (hs ! i) \<and> handler (hs ! i) = UserHandler n
      \<and> beh (calls s0) n a = Returns (Bool True)"
  then show "marked (rid (hs ! i)) (fst (fire beh k pattern i (Inr a) name s0))"
    using fire_marks [of s0 k pattern hs i n beh a name] by simp
next
  assume m: "marked r s"
  show "kept r s (fst (invokeChangeListeners beh s))" using m by (rule kept_invokeChangeListeners)
  show "kept r s (fst (set_value beh path v persist_flag ttl s))" using m by (rule kept_set_value)
  show "kept r s (fst (erase beh path s))" using m by (rule kept_erase)
  show "kept r s (fst (push beh path v s))" using m by (rule kept_push)
  show "kept r s (fst (trigger beh eventName payload s))" using m by (rule kept_trigger)
  show "kept r s (fst (listen beh names historical h id_arg s))" using m by (rule kept_listen)
qed

lemma marked_record_is_silent_example:
  "(let b = (\<lambda>tr n a. Returns (Bool True));
        s1 = fst (listen b (Single ''e'') (Some False) (UserHandler 0) None (startup [] True 0));
        s2 = fst (fire b EventListeners ''e'' 0 (Inr Null) ''listener-handler'' s1)
    in wf_rids s1
       \<and> map_of (get_registry EventListeners s1) ''e''
           = Some [\<lparr>handler = UserHandler 0, lid = None, dependsOn = None, once = False, rid = 0\<rparr>]
       \<and> marked 0 s2
       \<and> kept 0 s2 (fst (trigger b ''e'' Undefined s2)))"
proof -
  define b :: behaviour where "b = (\<lambda>tr n a. Returns (Bool True))"
  define s1 where "s1 = fst (listen b (Single ''e'') (Some False) (UserHandler 0) None (startup [] True 0))"
  define s2 where "s2 = fst (fire b EventListeners ''e'' 0 (Inr Null) ''listener-handler'' s1)"
  let ?rec = "\<lparr>handler = UserHandler 0, lid = None, dependsOn = None, once = False, rid = 0\<rparr>"
  have h1: "wf_rids s1" unfolding s1_def b_def by code_simp
  have h2: "map_of (get_registry EventListeners s1) ''e'' = Some [?rec]"
    unfolding s1_def b_def by code_simp
  have h3: "b (calls s1) 0 Null = Returns (Bool True)" by (simp add: b_def)
  have m: "marked 0 s2"
    using marked_record_is_silent [where ?s0.0 = s1 and k = EventListeners and pattern = "''e''"
        and hs = "[?rec]" and i = 0 and n = 0 and beh = b and a = Null
        and name = "''listener-handler''"] h1 h2 h3
    by (simp add: s2_def)
  have k: "kept 0 s2 (fst (trigger b ''e'' Undefined s2))"
    using marked_record_is_silent [where r = 0 and s = s2 and beh = b and eventName = "''e''"
        and payload = Undefined] m
    by simp
  show ?thesis
    using h1 h2 m k unfolding Let_def s2_def s1_def b_def by simp
qed



text \<open>
  C6: a handler whose call returns \<open>true\<close> should never be called again through its
  record. On the code the call that \<open>change\<close> makes at registration drops the result:
  with \<open>1\<close> stored at \<open>a\<close>, \<open>change("a", h)\<close> calls \<open>h\<close>, which returns \<open>true\<close>,
  the record stays unmarked, and \<open>set("a", 2)\<close> calls \<open>h\<close> again through the same
  record. The change dispatch and the replay of \<open>listen\<close> do mark the record: only after
  the second call is it marked.
\<close>

theorem change_registration_drops_true:
  "(let beh = (\<lambda>tr n a. Returns (Bool True));
        s1 = fst (set_value beh ''a'' (Num 1) False Undefined (startup [] True 0));
        s2 = fst (change beh ''a'' False (UserHandler 0) None s1);
        s3 = fst (set_value beh ''a'' (Num 2) False Undefined s2)
    in calls s1 = []
       \<and> calls s2 = [(0, UserHandler 0, Num 1)]
       \<and> map (map (\<lambda>r. (rid r, once r)) \<circ> snd) (propertyListeners s2) = [[(0, False)]]
       \<and> calls s3 = [(0, UserHandler 0, Num 1), (0, UserHandler 0, Num 2)]
       \<and> map (map (\<lambda>r. (rid r, once r)) \<circ> snd) (propertyListeners s3) = [[(0, True)]])"
  by code_simp

section \<open>Properties of error handling\<close>

text \<open>A thrown string is caught, reported, and the dispatch goes on.\<close>

lemma throwing_handler_caught_example:
  "(let beh = (\<lambda>tr n a. if n = 0 then Throws (Str ''boom'') else Returns Undefined);
        s1 = fst (listen beh (Single ''e'') (Some False) (UserHandler 0) None (startup [] True 0));
        s2 = fst (listen beh (Single ''e'') (Some False) (UserHandler 1) None s1);
        t = trigger beh ''e'' Undefined s2
    in map (fst \<circ> snd) (calls (fst t)) = [UserHandler 0, UserHandler 1]
       \<and> length (events (fst t)) = 1 \<and> snd t = None)"
  by code_simp

text \<open>
  C8: a handler that throws should not keep the other handlers from running nor the
  operation from completing. On the code a handler that throws \<open>null\<close> makes
  \<open>handleError\<close> itself throw at \<open>error.message\<close>: \<open>trigger("e")\<close> then skips the
  second listener and does not log the event, and \<open>set("a", 1)\<close> skips the second change
  listener and throws a \<open>TypeError\<close> to its caller.
\<close>

theorem throwing_handler_stops_dispatch:
  "(let beh = (\<lambda>tr n a. if n = 0 then Throws Null else Returns Undefined);
        s1 = fst (listen beh (Single ''e'') (Some False) (UserHandler 0) None (startup [] True 0));
        s2 = fst (listen beh (Single ''e'') (Some False) (UserHandler 1) None s1);
        t = trigger beh ''e'' Undefined s2;
        c1 = fst (change beh ''a'' True (UserHandler 0) None (startup [] True 0));
        c2 = fst (change beh ''a'' True (UserHandler 1) None c1);
        u = set_value beh ''a'' (Num 1) False Undefined c2
    in map (map handler \<circ> snd) (eventListeners s2) = [[UserHandler 0, UserHandler 1]]
       \<and> map (fst \<circ> snd) (calls (fst t)) = [UserHandler 0]
       \<and> events (fst t) = []
       \<and> map (map handler \<circ> snd) (propertyListeners c2) = [[UserHandler 0, UserHandler 1]]
       \<and> map (fst \<circ> snd) (calls (fst u)) = [UserHandler 0]
       \<and> snd u = Some TypeError)"
  by code_simp

section \<open>Properties of the diff engine\<close>

lemma clean_clone: "clean v \<Longrightarrow> cloneObject v = v"
proof (induction v rule: cloneObject.induct)
  case (1 xs)
  have "\<And>x. x \<in> set xs \<Longrightarrow> (case cloneObject x of Undefined \<Rightarrow> Null | v \<Rightarrow> v) = x"
  proof -
    fix x assume x: "x \<in> set xs"
    then have c: "clean x" using 1(2) by (simp add: list_all_iff)
    then have "cloneObject x = x" using 1(1) x by simp
    then show "(case cloneObject x of Undefined \<Rightarrow> Null | v \<Rightarrow> v) = x" using c by (cases x) auto
  qed
  then show ?case by (simp add: map_idI)
next
  case (2 kvs)
  have a: "\<And>kv. kv \<in> set kvs \<Longrightarrow> (fst kv, cloneObject (snd kv)) = kv \<and> snd kv \<noteq> Undefined"
  proof -
    fix kv assume kv: "kv \<in> set kvs"
    then have c: "clean (snd kv)" using 2(2) by (simp add: list_all_iff)
    then have "cloneObject (snd kv) = snd kv" using 2(1) kv by simp
    moreover have "snd kv \<noteq> Undefined" using c by (cases "snd kv") auto
    ultimately show "(fst kv, cloneObject (snd kv)) = kv \<and> snd kv \<noteq> Undefined" by simp
  qed
  then have "map (\<lambda>kv. (fst kv, cloneObject (snd kv))) kvs = kvs" by (simp add: map_idI)
  moreover have "filter (\<lambda>kv. snd kv \<noteq> Undefined) kvs = kvs" using a by (simp add: filter_id_conv)
  ultimately show ?case by simp
qed simp_all

lemma value_at_Undefined [simp]: "value_at Undefined segs = Undefined"
  by (cases segs) auto

lemma value_at_cons: "value_at v (k # ks) = value_at (value_at v [k]) ks"
  by (cases v) (auto split: option.splits)

lemma dedup_loop_props:
  "distinct acc \<Longrightarrow> distinct (dedup_loop xs acc) \<and> set (dedup_loop xs acc) = set xs \<union> set acc"
  by (induction xs acc rule: dedup_loop.induct) auto


lemma obj1Prop_value_at:
  "(case o1 of Obj kvs1 \<Rightarrow> (case map_of kvs1 prop of Some x \<Rightarrow> x | None \<Rightarrow> Undefined) | _ \<Rightarrow> Undefined)
   = value_at o1 [prop]"
  by (cases o1) (auto split: option.splits)

lemma clean_value_at:
  "o1 = Undefined \<or> clean o1 \<Longrightarrow> value_at o1 [prop] = Undefined \<or> clean (value_at o1 [prop])"
  by (cases o1) (auto split: option.splits simp: list_all_iff dest!: map_of_SomeD)

lemma not_object_value_at: "\<not> isObject o1 \<Longrightarrow> value_at o1 (k # ks) = Undefined"
  by (cases o1) (auto simp: isObject_def)

lemma differs_leaf: "\<not> isObject v \<Longrightarrow> \<not> differs_one_way o1 v ks"
  by (cases ks) (auto simp: differs_one_way_def not_object_value_at)

lemma differs_cons:
  assumes "prop \<notin> fst ` set rest"
  shows "differs_one_way o1 (Obj ((prop, v) # rest)) segs \<longleftrightarrow>
     (segs = [prop] \<and> v \<noteq> Undefined
        \<and> (if isObject v then value_at o1 [prop] = Undefined else value_at o1 [prop] \<noteq> v))
     \<or> (\<exists>ks. segs = prop # ks \<and> differs_one_way (value_at o1 [prop]) v ks)
     \<or> differs_one_way o1 (Obj rest) segs"
proof (cases segs)
  case Nil
  then show ?thesis by (simp add: differs_one_way_def)
next
  case (Cons k ks)
  have none: "map_of rest prop = None" using assms by (simp add: map_of_eq_None_iff)
  define o1p where "o1p = value_at o1 [prop]"
  show ?thesis
  proof (cases "k = prop")
    case True
    define Q where "Q = (value_at v ks \<noteq> Undefined
      \<and> (if isObject (value_at v ks) then value_at o1p ks = Undefined
          else value_at o1p ks \<noteq> value_at v ks))"
    have b: "value_at o1 (prop # ks) = value_at o1p ks"
      unfolding o1p_def by (rule value_at_cons)
    have lhs: "differs_one_way o1 (Obj ((prop, v) # rest)) (prop # ks) = Q"
      by (simp add: differs_one_way_def b Q_def)
    have mid: "differs_one_way o1p v ks = (ks \<noteq> [] \<and> Q)"
      by (simp add: differs_one_way_def Q_def)
    have c: "\<not> differs_one_way o1 (Obj rest) (prop # ks)"
      using none by (simp add: differs_one_way_def)
    have e: "ks = [] \<Longrightarrow> Q = (v \<noteq> Undefined \<and> (if isObject v then o1p = Undefined else o1p \<noteq> v))"
      by (simp add: Q_def)
    have "Q \<longleftrightarrow> (ks = [] \<and> v \<noteq> Undefined \<and> (if isObject v then o1p = Undefined else o1p \<noteq> v))
                \<or> (ks \<noteq> [] \<and> Q)"
      using e by blast
    then show ?thesis
      unfolding Cons True lhs using c mid by (auto simp: o1p_def [symmetric] split: if_splits)
  next
    case False
    then show ?thesis using Cons by (auto simp: differs_one_way_def)
  qed
qed

lemma walk_step:
  "getDifferences_walk o1 ((prop, v) # rest) path =
     (if isObject v
      then (if value_at o1 [prop] = Undefined then [join_dot (path @ [prop])] else [])
           @ getDifferences_walk (value_at o1 [prop]) (case v of Obj inner \<Rightarrow> inner | _ \<Rightarrow> []) (path @ [prop])
      else (if \<not> isObject o1 \<or> \<not> json_text_eq (value_at o1 [prop]) v
            then [join_dot (path @ [prop])] else []))
     @ getDifferences_walk o1 rest path"
  by (cases v) (simp_all add: isObject_def obj1Prop_value_at Let_def)

lemma leaf_test:
  assumes "clean v" "\<not> isObject v" "o1 = Undefined \<or> clean o1"
  shows "(\<not> isObject o1 \<or> \<not> json_text_eq (value_at o1 [prop]) v) = (value_at o1 [prop] \<noteq> v)"
proof -
  have v: "cloneObject v = v" "v \<noteq> Undefined" using assms(1) by (auto simp: clean_clone)
  have "value_at o1 [prop] = Undefined \<or> clean (value_at o1 [prop])"
    using assms(3) by (rule clean_value_at)
  then have c: "cloneObject (value_at o1 [prop]) = value_at o1 [prop]"
    by (auto simp: clean_clone)
  have "\<not> isObject o1 \<Longrightarrow> value_at o1 [prop] \<noteq> v" using v(2) by (simp add: not_object_value_at)
  then show ?thesis by (auto simp: json_text_eq_def c v)
qed

lemma walk_set:
  assumes "distinct (map fst kvs)" "list_all (\<lambda>kv. clean (snd kv)) kvs" "o1 = Undefined \<or> clean o1"
  shows "set (getDifferences_walk o1 kvs path)
         = {join_dot (path @ segs) | segs. differs_one_way o1 (Obj kvs) segs}"
  using assms
proof (induction o1 kvs path rule: getDifferences_walk.induct)
  case (1 obj1 path)
  have "\<And>segs. \<not> differs_one_way obj1 (Obj []) segs"
  proof -
    fix segs show "\<not> differs_one_way obj1 (Obj []) segs"
      by (cases segs) (simp_all add: differs_one_way_def)
  qed
  then show ?case by simp
next
  case (2 obj1 pr v rest path)
  let ?o1p = "value_at obj1 [pr]"
  let ?P = "join_dot (path @ [pr])"
  have notin: "pr \<notin> fst ` set rest" using 2(3) by simp
  have cv: "clean v" using 2(4) by simp
  have rest: "set (getDifferences_walk obj1 rest path)
              = {join_dot (path @ segs) | segs. differs_one_way obj1 (Obj rest) segs}"
    using 2(2) 2(3) 2(4) 2(5) by simp
  have c1p: "?o1p = Undefined \<or> clean ?o1p" using 2(5) by (rule clean_value_at)
  have head: "set (if isObject v
      then (if ?o1p = Undefined then [?P] else [])
           @ getDifferences_walk ?o1p (case v of Obj inner \<Rightarrow> inner | _ \<Rightarrow> []) (path @ [pr])
      else (if \<not> isObject obj1 \<or> \<not> json_text_eq ?o1p v then [?P] else []))
      = {join_dot (path @ segs) | segs.
           (segs = [pr] \<and> v \<noteq> Undefined \<and> (if isObject v then ?o1p = Undefined else ?o1p \<noteq> v))
           \<or> (\<exists>ks. segs = pr # ks \<and> differs_one_way ?o1p v ks)}"
  proof (cases "isObject v")
    case False
    have "v \<noteq> Undefined" using cv by auto
    then show ?thesis
      using False leaf_test [OF cv False 2(5)] by (auto simp: differs_leaf)
  next
    case True
    then obtain inner where inner: "v = Obj inner" by (cases v) (auto simp: isObject_def)
    have "set (getDifferences_walk ?o1p inner (path @ [pr]))
          = {join_dot ((path @ [pr]) @ ks) | ks. differs_one_way ?o1p (Obj inner) ks}"
      using 2(1) [OF inner obj1Prop_value_at [symmetric]] cv c1p inner by simp
    then show ?thesis using inner by (auto simp: isObject_def)
  qed
  show ?case
    unfolding walk_step set_append head rest
    by (auto simp: differs_cons [OF notin])
qed


lemma differs_both_ways:
  "(differs_one_way a b segs \<or> differs_one_way b a segs) =
   (segs \<noteq> [] \<and> (node_absent a b segs \<or> node_absent b a segs \<or> leaf_differs a b segs))"
  unfolding differs_one_way_def node_absent_def leaf_differs_def is_leaf_def
  by (auto simp: isObject_def)

text \<open>
  C5: for two snapshots of the value model, the diff has no duplicates, holds the union
  of the two one-directional walks, and consists exactly of the paths of a map node that
  one snapshot has and the other lacks and of the paths of a non-map leaf whose values in
  the two snapshots are not equal; a leaf with equal values is not among them.
\<close>

theorem getDifferences_characterisation:
  assumes "clean (Obj previous)" and "clean (Obj current)"
  shows "distinct (getDifferences previous current)
     \<and> set (getDifferences previous current)
         = set (getDifferences_walk (Obj previous) current [])
           \<union> set (getDifferences_walk (Obj current) previous [])
     \<and> set (getDifferences previous current)
         = join_dot ` {segs. segs \<noteq> []
                        \<and> (node_absent (Obj previous) (Obj current) segs
                            \<or> node_absent (Obj current) (Obj previous) segs
                            \<or> leaf_differs (Obj previous) (Obj current) segs)}"
proof -
  let ?d1 = "getDifferences_walk (Obj previous) current []"
  let ?d2 = "getDifferences_walk (Obj current) previous []"
  have res: "getDifferences previous current = dedup_loop (rev (?d1 @ ?d2)) []"
    by (simp add: getDifferences_def Let_def)
  have dd: "distinct (getDifferences previous current)"
    and un: "set (getDifferences previous current) = set ?d1 \<union> set ?d2"
    unfolding res using dedup_loop_props [of "[]" "rev (?d1 @ ?d2)"] by auto
  have w1: "set ?d1 = {join_dot segs | segs. differs_one_way (Obj previous) (Obj current) segs}"
    using walk_set [of current "Obj previous" "[]"] assms by simp
  have w2: "set ?d2 = {join_dot segs | segs. differs_one_way (Obj current) (Obj previous) segs}"
    using walk_set [of previous "Obj current" "[]"] assms by simp
  have "set ?d1 \<union> set ?d2
        = join_dot ` {segs. differs_one_way (Obj previous) (Obj current) segs
                           \<or> differs_one_way (Obj current) (Obj previous) segs}"
    unfolding w1 w2 by auto
  also have "\<dots> = join_dot ` {segs. segs \<noteq> []
                        \<and> (node_absent (Obj previous) (Obj current) segs
                            \<or> node_absent (Obj current) (Obj previous) segs
                            \<or> leaf_differs (Obj previous) (Obj current) segs)}"
    by (simp only: differs_both_ways)
  finally show ?thesis using dd un by simp
qed

theorem getDifferences_characterisation_witness:
  "clean (Obj [(''a'', Num 1), (''b'', Obj [])]) \<and> clean (Obj [(''a'', Num 2)])
   \<and> getDifferences [(''a'', Num 1), (''b'', Obj [])] [(''a'', Num 2)] = [''b'', ''a'']
   \<and> set (getDifferences [(''a'', Num 1), (''b'', Obj [])] [(''a'', Num 2)])
       = join_dot ` {segs. segs \<noteq> []
            \<and> (node_absent (Obj [(''a'', Num 1), (''b'', Obj [])]) (Obj [(''a'', Num 2)]) segs
                \<or> node_absent (Obj [(''a'', Num 2)]) (Obj [(''a'', Num 1), (''b'', Obj [])]) segs
                \<or> leaf_differs (Obj [(''a'', Num 1), (''b'', Obj [])]) (Obj [(''a'', Num 2)]) segs)}"
proof -
  have h1: "clean (Obj [(''a'', Num 1), (''b'', Obj [])])" by code_simp
  have h2: "clean (Obj [(''a'', Num 2)])" by code_simp
  have e: "getDifferences [(''a'', Num 1), (''b'', Obj [])] [(''a'', Num 2)] = [''b'', ''a'']"
    by code_simp
  show ?thesis
    using h1 h2 e getDifferences_characterisation [OF h1 h2] by blast
qed


end
